theory Spec2Isabelle
  imports Main "HOL-Library.Word" "HOL-Library.Multiset"
begin

section \<open>The string-hash matching engine (stringLookup)\<close>

text \<open>
  A shallow embedding of the hashed equality/inequality matching engine: the type
  \<open>stringLookup\<close> with its operations \<open>Add\<close>, \<open>Remove\<close>, \<open>Search\<close>,
  \<open>equalitySearch\<close>, \<open>inequalitySearch\<close>, \<open>hash\<close> and \<open>Match\<close>.

  The engine calls code that is declared elsewhere. Each such collaborator is an
  argument of the functions below:
  \<^item> \<open>xx\<close> is \<open>xxhash.Sum64String\<close>, the 64-bit digest of a string;
  \<^item> \<open>none\<close> is the constant \<open>OptimizeNone\<close>;
  \<^item> \<open>toStored\<close> is the method \<open>ExpressionPart.ToStored\<close>;
  \<^item> \<open>equalsStored\<close> is the method \<open>ExpressionPart.EqualsStored\<close>;
  \<^item> \<open>parse\<close> is \<open>jp.ParseString\<close>; the parsed path expression is represented by its
    \<open>Get\<close> method, a function from the event to the list of extracted values.
  The mutex is not modelled: every operation is taken as one atomic step.
\<close>

subsection \<open>Data model\<close>

text \<open>
  The operator of a predicate: \<open>operators.Equals\<close>, \<open>operators.NotEquals\<close>, or any
  other operator name.
\<close>

datatype operator = Equals | NotEquals | OtherOperator string

text \<open>
  The errors: \<open>ErrExpressionPartNotFound\<close>, the error that \<open>Add\<close> and \<open>Remove\<close> build
  with \<open>fmt.Errorf\<close> for an operator they do not support, and the errors of the path
  parser.
\<close>

datatype error = ErrExpressionPartNotFound | ErrUnsupportedOperator | ErrPathParse string

text \<open>Go values of type \<open>any\<close>, as far as the engine distinguishes them: strings and the rest.\<close>

datatype any = String string | Number int | Bool bool | Null

type_synonym EvaluableID = nat

text \<open>
  Modelled from the spec: the type \<open>groupID\<close> and its method \<open>Flag()\<close> are declared
  outside the engine's file. A group identifier carries an optimization flag, a small
  integer that is the number of matches the group requires; \<open>Serial\<close> stands for the rest
  of the identifier. The flag is kept as an integer, whatever the width of its type: the
  engine converts it with \<open>int8\<close> before it compares.
\<close>

record groupID =
  Serial :: nat
  Flag :: int

text \<open>
  Modelled from the spec: a predicate is an operator, a field identifier (a path) and a
  literal string; \<open>LiteralAsString\<close> reads the literal.
\<close>

record Predicate =
  Operator :: operator
  Ident :: string
  Literal :: string

definition LiteralAsString :: "Predicate \<Rightarrow> string" where
  "LiteralAsString p = Literal p"

text \<open>
  Modelled from the spec: an expression part is a predicate with the identifiers of the
  owning expression and of its group.
\<close>

record ExpressionPart =
  EvaluableID :: EvaluableID
  GroupID :: groupID
  Predicate :: Predicate

text \<open>
  Modelled from the spec: the type \<open>StoredExpressionPart\<close> is declared outside the
  engine's file. It is the stored form of a part. The engine reads its fields
  \<open>EvaluableID\<close>, \<open>GroupID\<close> and \<open>Ident\<close> (a pointer, \<open>None\<close> when nil);
  \<open>PredicateID\<close> stands for whatever else the stored form keeps of the predicate.
\<close>

record StoredExpressionPart =
  EvaluableID :: EvaluableID
  GroupID :: groupID
  PredicateID :: nat
  Ident :: "string option"

type_synonym variableMap = "string \<rightharpoonup> StoredExpressionPart list"

type_synonym inequalityMap = "string \<rightharpoonup> variableMap"

record stringLookup =
  vars :: "string set"
  equality :: variableMap
  inequality :: inequalityMap
  concurrency :: int

definition newStringEqualityMatcher :: "int \<Rightarrow> stringLookup" where
  "newStringEqualityMatcher c =
     \<lparr>vars = {}, equality = Map.empty, inequality = Map.empty, concurrency = c\<rparr>"

subsection \<open>The match result accumulator\<close>

text \<open>
  Modelled from the spec: \<open>MatchResult\<close> is declared outside the engine's file. It is a
  multiset of (EvaluableID, GroupID) hits: \<open>Add\<close> inserts one hit, \<open>AddExprs\<close> inserts
  one hit for each stored part given, \<open>GroupMatches\<close> is the number of hits recorded for
  a pair.
\<close>

type_synonym MatchResult = "(EvaluableID \<times> groupID) multiset"

definition MatchResult_Add :: "MatchResult \<Rightarrow> EvaluableID \<Rightarrow> groupID \<Rightarrow> MatchResult" where
  "MatchResult_Add result e g = add_mset (e, g) result"

fun AddExprs :: "MatchResult \<Rightarrow> StoredExpressionPart list \<Rightarrow> MatchResult" where
  "AddExprs result [] = result"
| "AddExprs result (expr # exprs) =
     AddExprs (add_mset (EvaluableID expr, GroupID expr) result) exprs"

definition GroupMatches :: "MatchResult \<Rightarrow> EvaluableID \<Rightarrow> groupID \<Rightarrow> int" where
  "GroupMatches result e g = int (count result (e, g))"

subsection \<open>hash\<close>

definition digit36 :: "nat \<Rightarrow> char" where
  "digit36 d = ''0123456789abcdefghijklmnopqrstuvwxyz'' ! d"

text \<open>\<open>strconv.FormatUint(ui, 36)\<close>: the digits of \<open>ui\<close> in base 36, most significant first.\<close>

function FormatUint36 :: "nat \<Rightarrow> string" where
  "FormatUint36 ui =
     (if ui < 36 then [digit36 ui] else FormatUint36 (ui div 36) @ [digit36 (ui mod 36)])"
  by pat_completeness auto
termination
  by (relation "measure id") auto

declare FormatUint36.simps [simp del]

definition hash :: "(string \<Rightarrow> 64 word) \<Rightarrow> string \<Rightarrow> string" where
  "hash xx input = (let ui = xx input in FormatUint36 (unat ui))"

subsection \<open>equalitySearch and Search\<close>

text \<open>
  The loop of \<open>equalitySearch\<close> over the bucket of the hashed input. The pair is the
  named result \<open>neqOptimized\<close> and the accumulator.
\<close>

fun equalitySearch_parts ::
  "int \<Rightarrow> string \<Rightarrow> StoredExpressionPart list \<Rightarrow> bool \<times> MatchResult \<Rightarrow> bool \<times> MatchResult" where
  "equalitySearch_parts none variable [] (neqOptimized, result) = (neqOptimized, result)"
| "equalitySearch_parts none variable (part # parts) (neqOptimized, result) =
     (if Ident part \<noteq> None \<and> the (Ident part) \<noteq> variable
      then equalitySearch_parts none variable parts (neqOptimized, result)
      else equalitySearch_parts none variable parts
             (if Flag (GroupID part) \<noteq> none then True else neqOptimized,
              MatchResult_Add result (EvaluableID part) (GroupID part)))"

text \<open>Reading a bucket of a Go map: a missing key gives the nil slice.\<close>

definition bucket :: "variableMap \<Rightarrow> string \<Rightarrow> StoredExpressionPart list" where
  "bucket m k = (case m k of None \<Rightarrow> [] | Some parts \<Rightarrow> parts)"

definition equalitySearch ::
  "(string \<Rightarrow> 64 word) \<Rightarrow> int \<Rightarrow> stringLookup \<Rightarrow> string \<Rightarrow> string \<Rightarrow> MatchResult
     \<Rightarrow> bool \<times> MatchResult" where
  "equalitySearch xx none n variable input result =
     (let hashedInput = hash xx input
      in equalitySearch_parts none variable (bucket (equality n) hashedInput) (False, result))"

definition Search ::
  "(string \<Rightarrow> 64 word) \<Rightarrow> int \<Rightarrow> stringLookup \<Rightarrow> string \<Rightarrow> any \<Rightarrow> MatchResult \<Rightarrow> MatchResult" where
  "Search xx none n variable input result =
     (case input of
        String str \<Rightarrow> snd (equalitySearch xx none n variable str result)
      | _ \<Rightarrow> result)"

subsection \<open>inequalitySearch\<close>

text \<open>The conversion \<open>int8(v)\<close>: the low eight bits of \<open>v\<close>, read as two's complement.\<close>

definition int8 :: "int \<Rightarrow> int" where
  "int8 v = sint (word_of_int v :: 8 word)"

text \<open>The inner loop, run when the optimization signal is raised.\<close>

fun inequalitySearch_exprs :: "StoredExpressionPart list \<Rightarrow> MatchResult \<Rightarrow> MatchResult" where
  "inequalitySearch_exprs [] result = result"
| "inequalitySearch_exprs (expr # exprs) result =
     (let res = GroupMatches result (EvaluableID expr) (GroupID expr)
      in if int8 res < int8 (Flag (GroupID expr))
         then inequalitySearch_exprs exprs result
         else inequalitySearch_exprs exprs (AddExprs result [expr]))"

text \<open>
  The outer loop ranges over a Go map, in an order the language leaves open. The order is
  the argument \<open>order\<close>, a list of keys; a key that the map does not hold is passed over.
\<close>

fun inequalitySearch_values ::
  "string \<Rightarrow> bool \<Rightarrow> variableMap \<Rightarrow> string list \<Rightarrow> MatchResult \<Rightarrow> MatchResult" where
  "inequalitySearch_values hashedInput neqOptimized m [] result = result"
| "inequalitySearch_values hashedInput neqOptimized m (v # order) result =
     (case m v of
        None \<Rightarrow> inequalitySearch_values hashedInput neqOptimized m order result
      | Some exprs \<Rightarrow>
          if v = hashedInput
          then inequalitySearch_values hashedInput neqOptimized m order result
          else if \<not> neqOptimized
          then inequalitySearch_values hashedInput neqOptimized m order (AddExprs result exprs)
          else inequalitySearch_values hashedInput neqOptimized m order
                 (inequalitySearch_exprs exprs result))"

text \<open>
  The slice that \<open>inequalitySearch\<close> returns is always empty (nothing is appended to
  \<open>results\<close>) and no caller reads it; the model returns the accumulator.
\<close>

definition inequalitySearch ::
  "(string \<Rightarrow> 64 word) \<Rightarrow> stringLookup \<Rightarrow> string list \<Rightarrow> string \<Rightarrow> string \<Rightarrow> bool
     \<Rightarrow> MatchResult \<Rightarrow> MatchResult" where
  "inequalitySearch xx n order variable input neqOptimized result =
     (case inequality n variable of
        None \<Rightarrow> result
      | Some m \<Rightarrow>
          if dom m = {} then result
          else inequalitySearch_values (hash xx input) neqOptimized m order result)"

subsection \<open>Add and Remove\<close>

text \<open>
  \<open>Add\<close> and \<open>Remove\<close> change the engine in place and return an error or nil. The model
  returns the error (\<open>None\<close> for nil) together with the engine after the call.
\<close>

definition Add ::
  "(string \<Rightarrow> 64 word) \<Rightarrow> (ExpressionPart \<Rightarrow> StoredExpressionPart) \<Rightarrow> stringLookup
     \<Rightarrow> ExpressionPart \<Rightarrow> error option \<times> stringLookup" where
  "Add xx toStored n p =
     (case Operator (Predicate p) of
        Equals \<Rightarrow>
          (let val = hash xx (LiteralAsString (Predicate p));
               n1 = n\<lparr>vars := insert (Predicate.Ident (Predicate p)) (vars n)\<rparr>
           in case equality n1 val of
                None \<Rightarrow> (None, n1\<lparr>equality := (equality n1)(val \<mapsto> [toStored p])\<rparr>)
              | Some coll \<Rightarrow> (None, n1\<lparr>equality := (equality n1)(val \<mapsto> coll @ [toStored p])\<rparr>))
      | NotEquals \<Rightarrow>
          (let val = hash xx (LiteralAsString (Predicate p));
               ident = Predicate.Ident (Predicate p)
           in case inequality n ident of
                None \<Rightarrow>
                  (None, n\<lparr>inequality := (inequality n)(ident \<mapsto> [val \<mapsto> [toStored p]])\<rparr>)
              | Some m \<Rightarrow>
                  (None, n\<lparr>inequality :=
                             (inequality n)(ident \<mapsto> m(val \<mapsto> bucket m val @ [toStored p]))\<rparr>))
      | OtherOperator _ \<Rightarrow> (Some ErrUnsupportedOperator, n))"

text \<open>
  The removal loop: the first element that \<open>EqualsStored\<close> accepts is spliced out,
  \<open>append(coll[:i], coll[i+1:]...)\<close>; \<open>None\<close> when the loop ends without finding one.
\<close>

fun splice :: "('a \<Rightarrow> bool) \<Rightarrow> 'a list \<Rightarrow> 'a list option" where
  "splice eq [] = None"
| "splice eq (eval # coll) =
     (if eq eval then Some coll else map_option ((#) eval) (splice eq coll))"

definition Remove ::
  "(string \<Rightarrow> 64 word) \<Rightarrow> (ExpressionPart \<Rightarrow> StoredExpressionPart \<Rightarrow> bool) \<Rightarrow> stringLookup
     \<Rightarrow> ExpressionPart \<Rightarrow> error option \<times> stringLookup" where
  "Remove xx equalsStored n p =
     (case Operator (Predicate p) of
        Equals \<Rightarrow>
          (let val = hash xx (LiteralAsString (Predicate p))
           in case equality n val of
                None \<Rightarrow> (Some ErrExpressionPartNotFound, n)
              | Some coll \<Rightarrow>
                  (case splice (equalsStored p) coll of
                     Some coll' \<Rightarrow> (None, n\<lparr>equality := (equality n)(val \<mapsto> coll')\<rparr>)
                   | None \<Rightarrow> (Some ErrExpressionPartNotFound, n)))
      | NotEquals \<Rightarrow>
          (let val = hash xx (LiteralAsString (Predicate p));
               ident = Predicate.Ident (Predicate p)
           in case inequality n ident of
                None \<Rightarrow> (Some ErrExpressionPartNotFound, n)
              | Some m \<Rightarrow>
                  (case m val of
                     None \<Rightarrow> (None, n)
                   | Some coll \<Rightarrow>
                       (case splice (equalsStored p) coll of
                          Some coll' \<Rightarrow>
                            (None, n\<lparr>inequality := (inequality n)(ident \<mapsto> m(val \<mapsto> coll'))\<rparr>)
                        | None \<Rightarrow> (Some ErrExpressionPartNotFound, n))))
      | OtherOperator _ \<Rightarrow> (Some ErrUnsupportedOperator, n))"


subsection \<open>Match\<close>

text \<open>
  The value of a field: the first extracted value when it is a string, the empty string
  when nothing was extracted or the first value is not a string.
\<close>

definition fieldString :: "any list \<Rightarrow> string" where
  "fieldString res =
     (case res of
        [] \<Rightarrow> ''''
      | v # _ \<Rightarrow> (case v of String value \<Rightarrow> value | _ \<Rightarrow> ''''))"

text \<open>
  The unit of work of the first phase, for one path of \<open>vars\<close>: the error it returns, whether
  it increments the counter \<open>neqOptimized\<close>, and the accumulator.
\<close>

definition equalityTask ::
  "(string \<Rightarrow> error + ('i \<Rightarrow> any list)) \<Rightarrow> (string \<Rightarrow> 64 word) \<Rightarrow> int \<Rightarrow> stringLookup \<Rightarrow> 'i
     \<Rightarrow> string \<Rightarrow> MatchResult \<Rightarrow> error option \<times> bool \<times> MatchResult" where
  "equalityTask parse xx none n input path result =
     (case parse path of
        Inl err \<Rightarrow> (Some err, False, result)
      | Inr x \<Rightarrow>
          (let str = fieldString (x input);
               (opt, result') = equalitySearch xx none n path str result
           in (None, opt, result')))"

text \<open>The unit of work of the second phase, for one path of the inequality index.\<close>

definition inequalityTask ::
  "(string \<Rightarrow> error + ('i \<Rightarrow> any list)) \<Rightarrow> (string \<Rightarrow> 64 word) \<Rightarrow> stringLookup \<Rightarrow> string list
     \<Rightarrow> 'i \<Rightarrow> 32 word \<Rightarrow> string \<Rightarrow> MatchResult \<Rightarrow> error option \<times> MatchResult" where
  "inequalityTask parse xx n order input neqOptimized path result =
     (case parse path of
        Inl err \<Rightarrow> (Some err, result)
      | Inr x \<Rightarrow>
          (let str = fieldString (x input)
           in (None, inequalitySearch xx n order path str (0 < sint neqOptimized) result)))"

text \<open>
  Modelled from the spec: the pool (\<open>newErrPool\<close>, \<open>Go\<close>, \<open>Wait\<close>) is declared outside
  the engine's file. It runs every submitted task, \<open>Wait\<close> returns the first error, and
  what the other tasks wrote is kept. The model runs the tasks of a phase one after the
  other, in the order of a schedule: the order in which the paths of \<open>vars\<close> are taken, the
  order in which the paths of the inequality index are taken, and for each path the order
  in which its buckets are taken.
\<close>

record schedule =
  varsOrder :: "string list"
  inequalityOrder :: "string list"
  valuesOrder :: "string \<Rightarrow> string list"

fun equalityPhase ::
  "(string \<Rightarrow> error + ('i \<Rightarrow> any list)) \<Rightarrow> (string \<Rightarrow> 64 word) \<Rightarrow> int \<Rightarrow> stringLookup \<Rightarrow> 'i
     \<Rightarrow> string list \<Rightarrow> error option \<times> 32 word \<times> MatchResult
     \<Rightarrow> error option \<times> 32 word \<times> MatchResult" where
  "equalityPhase parse xx none n input [] st = st"
| "equalityPhase parse xx none n input (path # paths) (err, neqOptimized, result) =
     (case equalityTask parse xx none n input path result of
        (e, opt, result') \<Rightarrow>
          equalityPhase parse xx none n input paths
            (if err = None then e else err,
             if opt then neqOptimized + 1 else neqOptimized,
             result'))"

fun inequalityPhase ::
  "(string \<Rightarrow> error + ('i \<Rightarrow> any list)) \<Rightarrow> (string \<Rightarrow> 64 word) \<Rightarrow> stringLookup \<Rightarrow> schedule
     \<Rightarrow> 'i \<Rightarrow> 32 word \<Rightarrow> string list \<Rightarrow> error option \<times> MatchResult
     \<Rightarrow> error option \<times> MatchResult" where
  "inequalityPhase parse xx n sched input neqOptimized [] st = st"
| "inequalityPhase parse xx n sched input neqOptimized (path # paths) (err, result) =
     (case inequalityTask parse xx n (valuesOrder sched path) input neqOptimized path result of
        (e, result') \<Rightarrow>
          inequalityPhase parse xx n sched input neqOptimized paths
            (if err = None then e else err, result'))"

definition Match ::
  "(string \<Rightarrow> error + ('i \<Rightarrow> any list)) \<Rightarrow> (string \<Rightarrow> 64 word) \<Rightarrow> int \<Rightarrow> stringLookup
     \<Rightarrow> schedule \<Rightarrow> 'i \<Rightarrow> MatchResult \<Rightarrow> error option \<times> MatchResult" where
  "Match parse xx none n sched input result =
     (case equalityPhase parse xx none n input (varsOrder sched) (None, 0, result) of
        (err, neqOptimized, result1) \<Rightarrow>
          (case err of
             Some e \<Rightarrow> (Some e, result1)
           | None \<Rightarrow>
               inequalityPhase parse xx n sched input neqOptimized (inequalityOrder sched)
                 (None, result1)))"

text \<open>A schedule fits an engine when it lists exactly the keys that the loops range over.\<close>

definition validSchedule :: "stringLookup \<Rightarrow> schedule \<Rightarrow> bool" where
  "validSchedule n sched \<longleftrightarrow>
     distinct (varsOrder sched) \<and> set (varsOrder sched) = vars n \<and>
     distinct (inequalityOrder sched) \<and> set (inequalityOrder sched) = dom (inequality n) \<and>
     (\<forall>path m. inequality n path = Some m \<longrightarrow>
        distinct (valuesOrder sched path) \<and> set (valuesOrder sched path) = dom m)"

subsection \<open>Sequences of operations\<close>

datatype operation = OpAdd ExpressionPart | OpRemove ExpressionPart

definition step ::
  "(string \<Rightarrow> 64 word) \<Rightarrow> (ExpressionPart \<Rightarrow> StoredExpressionPart)
     \<Rightarrow> (ExpressionPart \<Rightarrow> StoredExpressionPart \<Rightarrow> bool) \<Rightarrow> stringLookup \<Rightarrow> operation
     \<Rightarrow> stringLookup" where
  "step xx toStored equalsStored n op =
     (case op of
        OpAdd p \<Rightarrow> snd (Add xx toStored n p)
      | OpRemove p \<Rightarrow> snd (Remove xx equalsStored n p))"

text \<open>The engine after a sequence of calls, each on the engine the previous one left.\<close>

definition run ::
  "(string \<Rightarrow> 64 word) \<Rightarrow> (ExpressionPart \<Rightarrow> StoredExpressionPart)
     \<Rightarrow> (ExpressionPart \<Rightarrow> StoredExpressionPart \<Rightarrow> bool) \<Rightarrow> stringLookup \<Rightarrow> operation list
     \<Rightarrow> stringLookup" where
  "run xx toStored equalsStored n ops = foldl (step xx toStored equalsStored) n ops"

subsection \<open>A small instance of the collaborators\<close>

text \<open>
  Concrete collaborators, on which the engine can be evaluated. \<open>lengthSum64\<close> is a
  digest that tells strings of different lengths apart, in the place of xxhash.
\<close>

definition lengthSum64 :: "string \<Rightarrow> 64 word" where
  "lengthSum64 s = of_nat (length s)"

text \<open>
  Modelled from the spec: \<open>ToStored\<close> and \<open>EqualsStored\<close> are declared outside the
  engine's file. The stored form keeps the identifiers of the expression and of the
  group and the predicate's identifier, and a digest of the predicate (here the length
  of the literal); a part equals a stored part when these agree.
\<close>

definition ToStored :: "ExpressionPart \<Rightarrow> StoredExpressionPart" where
  "ToStored p =
     \<lparr>EvaluableID = ExpressionPart.EvaluableID p, GroupID = ExpressionPart.GroupID p,
      PredicateID = length (Literal (Predicate p)),
      Ident = Some (Predicate.Ident (Predicate p))\<rparr>"

definition EqualsStored :: "ExpressionPart \<Rightarrow> StoredExpressionPart \<Rightarrow> bool" where
  "EqualsStored p s \<longleftrightarrow>
     ExpressionPart.GroupID p = GroupID s \<and>
     length (Literal (Predicate p)) = PredicateID s \<and>
     ExpressionPart.EvaluableID p = EvaluableID s"

text \<open>
  An event is a map from field names to values. The instance of the path parser covers
  the empty path, which extracts nothing, and a plain field name (letters and the
  underscore), which extracts the value of that field. Every other path (nesting,
  indexing, wildcards and malformed paths alike) is outside the instance, which reports
  it as an error.
\<close>

definition plainName :: "string \<Rightarrow> bool" where
  "plainName path =
     list_all (\<lambda>c. c \<in> set ''abcdefghijklmnopqrstuvwxyzABCDEFGHIJKLMNOPQRSTUVWXYZ_'') path"

definition fieldPath :: "string \<Rightarrow> error + ((string \<rightharpoonup> any) \<Rightarrow> any list)" where
  "fieldPath path =
     (if path = [] then Inr (\<lambda>input. [])
      else if plainName path
      then Inr (\<lambda>input. case input path of None \<Rightarrow> [] | Some v \<Rightarrow> [v])
      else Inl (ErrPathParse path))"


subsection \<open>Observations on the engine and on a search\<close>

text \<open>The hit that a stored part contributes to the accumulator.\<close>

definition pairOf :: "StoredExpressionPart \<Rightarrow> EvaluableID \<times> groupID" where
  "pairOf s = (EvaluableID s, GroupID s)"

text \<open>
  The condition under which the first-phase task of \<open>path\<close> reports a stored part
  \<open>part\<close> registered for the literal \<open>lit\<close>: the path parses, the hash of the field's
  value is the hash of the literal, and the part's identifier is nil or the path.
\<close>

definition reports ::
  "(string \<Rightarrow> error + ('i \<Rightarrow> any list)) \<Rightarrow> (string \<Rightarrow> 64 word) \<Rightarrow> 'i \<Rightarrow> string
     \<Rightarrow> StoredExpressionPart \<Rightarrow> string \<Rightarrow> bool" where
  "reports parse xx input lit part path \<longleftrightarrow>
     (case parse path of
        Inl err \<Rightarrow> False
      | Inr x \<Rightarrow>
          hash xx (fieldString (x input)) = hash xx lit \<and>
          (Ident part = None \<or> Ident part = Some path))"

text \<open>The hits that the first-phase task of \<open>path\<close> adds to the accumulator.\<close>

definition taskHits ::
  "(string \<Rightarrow> error + ('i \<Rightarrow> any list)) \<Rightarrow> (string \<Rightarrow> 64 word) \<Rightarrow> stringLookup \<Rightarrow> 'i
     \<Rightarrow> string \<Rightarrow> MatchResult" where
  "taskHits parse xx n input path =
     (case parse path of
        Inl err \<Rightarrow> {#}
      | Inr x \<Rightarrow>
          mset (map pairOf (filter (\<lambda>s. Ident s = None \<or> Ident s = Some path)
                  (bucket (equality n) (hash xx (fieldString (x input)))))))"

text \<open>Reading \<open>n.inequality[variable]\<close>: a missing path gives the nil map.\<close>

definition inequalityAt :: "stringLookup \<Rightarrow> string \<Rightarrow> variableMap" where
  "inequalityAt n variable = (case inequality n variable of None \<Rightarrow> Map.empty | Some m \<Rightarrow> m)"

text \<open>The number of stored parts of a list that belong to the pair \<open>(e, g)\<close>.\<close>

definition groupHits :: "EvaluableID \<Rightarrow> groupID \<Rightarrow> StoredExpressionPart list \<Rightarrow> nat" where
  "groupHits e g exprs = length (filter (\<lambda>s. EvaluableID s = e \<and> GroupID s = g) exprs)"

text \<open>
  The stored parts that the loop of \<open>inequalitySearch\<close> reaches, in the order \<open>order\<close>:
  those of every bucket but the one of the hashed input.
\<close>

definition visited :: "string \<Rightarrow> variableMap \<Rightarrow> string list \<Rightarrow> StoredExpressionPart list" where
  "visited h m order = concat (map (bucket m) (filter (\<lambda>v. v \<noteq> h) order))"

text \<open>
  The first-phase task of \<open>path\<close> increments the counter \<open>neqOptimized\<close>: the path
  parses and the bucket of the hashed value holds a part that the search does not pass
  over and whose group has a flag other than \<open>OptimizeNone\<close>.
\<close>

definition signals ::
  "(string \<Rightarrow> error + ('i \<Rightarrow> any list)) \<Rightarrow> (string \<Rightarrow> 64 word) \<Rightarrow> int \<Rightarrow> stringLookup \<Rightarrow> 'i
     \<Rightarrow> string \<Rightarrow> bool" where
  "signals parse xx none n input path \<longleftrightarrow>
     (case parse path of
        Inl err \<Rightarrow> False
      | Inr x \<Rightarrow>
          list_ex (\<lambda>s. (Ident s = None \<or> Ident s = Some path) \<and> Flag (GroupID s) \<noteq> none)
            (bucket (equality n) (hash xx (fieldString (x input)))))"

text \<open>
  The stored parts that the second phase reaches, task after task: for each path of
  \<open>paths\<close> that parses, the parts that its inequality search reaches.
\<close>

definition phaseVisited ::
  "(string \<Rightarrow> error + ('i \<Rightarrow> any list)) \<Rightarrow> (string \<Rightarrow> 64 word) \<Rightarrow> stringLookup \<Rightarrow> schedule
     \<Rightarrow> 'i \<Rightarrow> string list \<Rightarrow> StoredExpressionPart list" where
  "phaseVisited parse xx n sched input paths =
     concat (map (\<lambda>path. case parse path of
                           Inl err \<Rightarrow> []
                         | Inr x \<Rightarrow>
                             visited (hash xx (fieldString (x input))) (inequalityAt n path)
                               (valuesOrder sched path))
               paths)"

text \<open>The stored parts held by the buckets of the two indexes.\<close>

definition equalityParts :: "stringLookup \<Rightarrow> StoredExpressionPart set" where
  "equalityParts n = (\<Union>k. set (bucket (equality n) k))"

definition inequalityParts :: "stringLookup \<Rightarrow> StoredExpressionPart set" where
  "inequalityParts n = (\<Union>path k. set (bucket (inequalityAt n path) k))"

text \<open>The identifiers of the stored parts held by the buckets of the equality index.\<close>

definition storedIdents :: "stringLookup \<Rightarrow> string set" where
  "storedIdents n = {i. \<exists>s\<in>equalityParts n. Ident s = Some i}"

text \<open>No bucket of either index holds a stored part twice.\<close>

definition noDuplicates :: "stringLookup \<Rightarrow> bool" where
  "noDuplicates n \<longleftrightarrow>
     (\<forall>k. distinct (bucket (equality n) k)) \<and>
     (\<forall>path k. distinct (bucket (inequalityAt n path) k))"

text \<open>The bucket that \<open>Add\<close> appends to and that \<open>Remove\<close> searches, for a part.\<close>

definition targetBucket ::
  "(string \<Rightarrow> 64 word) \<Rightarrow> stringLookup \<Rightarrow> ExpressionPart \<Rightarrow> StoredExpressionPart list" where
  "targetBucket xx n p =
     (case Operator (Predicate p) of
        Equals \<Rightarrow> bucket (equality n) (hash xx (LiteralAsString (Predicate p)))
      | NotEquals \<Rightarrow>
          bucket (inequalityAt n (Predicate.Ident (Predicate p)))
            (hash xx (LiteralAsString (Predicate p)))
      | OtherOperator _ \<Rightarrow> [])"

text \<open>
  A sequence of calls in which every \<open>Add\<close> finds its bucket without the stored form of
  the part it adds.
\<close>

fun freshAdds ::
  "(string \<Rightarrow> 64 word) \<Rightarrow> (ExpressionPart \<Rightarrow> StoredExpressionPart)
     \<Rightarrow> (ExpressionPart \<Rightarrow> StoredExpressionPart \<Rightarrow> bool) \<Rightarrow> stringLookup \<Rightarrow> operation list
     \<Rightarrow> bool" where
  "freshAdds xx toStored equalsStored n [] = True"
| "freshAdds xx toStored equalsStored n (op # ops) =
     ((case op of
         OpAdd p \<Rightarrow> toStored p \<notin> set (targetBucket xx n p)
       | OpRemove p \<Rightarrow> True) \<and>
      freshAdds xx toStored equalsStored (step xx toStored equalsStored n op) ops)"

subsection \<open>Concrete parts, engines, schedules and events\<close>

definition mkPart :: "operator \<Rightarrow> string \<Rightarrow> string \<Rightarrow> EvaluableID \<Rightarrow> int \<Rightarrow> ExpressionPart" where
  "mkPart op ident lit e flag =
     \<lparr>ExpressionPart.EvaluableID = e, ExpressionPart.GroupID = \<lparr>Serial = e, Flag = flag\<rparr>,
      Predicate = \<lparr>Operator = op, Ident = ident, Literal = lit\<rparr>\<rparr>"

text \<open>The engine that a sequence of calls builds from the new engine.\<close>

definition engine :: "operation list \<Rightarrow> stringLookup" where
  "engine ops = run lengthSum64 ToStored EqualsStored (newStringEqualityMatcher 0) ops"

definition scheduleOf :: "string list \<Rightarrow> string list \<Rightarrow> string list \<Rightarrow> schedule" where
  "scheduleOf vs ps ks = \<lparr>varsOrder = vs, inequalityOrder = ps, valuesOrder = (\<lambda>path. ks)\<rparr>"

definition eventOf :: "(string \<times> any) list \<Rightarrow> (string \<rightharpoonup> any)" where
  "eventOf kvs = map_of kvs"


section \<open>Lemmas on the searches and on Add and Remove\<close>


lemma equalitySearch_parts_append:
  "equalitySearch_parts none variable (xs @ ys) st =
     equalitySearch_parts none variable ys (equalitySearch_parts none variable xs st)"
  by (induction none variable xs st rule: equalitySearch_parts.induct) auto

lemma bucket_upd: "bucket (m(k \<mapsto> v)) k' = (if k' = k then v else bucket m k')"
  by (simp add: bucket_def)

lemma equality_Add_Equals:
  assumes "Operator (Predicate p) = Equals"
  shows "bucket (equality (snd (Add xx toStored n p))) k =
           (if k = hash xx (LiteralAsString (Predicate p))
            then bucket (equality n) k @ [toStored p] else bucket (equality n) k)"
  using assms by (simp add: Add_def Let_def bucket_def split: option.splits)

lemma equalitySearch_Add:
  assumes "Operator (Predicate p) = Equals"
  shows "equalitySearch xx none (snd (Add xx toStored n p)) variable input result =
     (let (opt, r) = equalitySearch xx none n variable input result; part = toStored p
      in if hash xx input = hash xx (LiteralAsString (Predicate p)) \<and>
            (Ident part = None \<or> Ident part = Some variable)
         then (opt \<or> Flag (GroupID part) \<noteq> none,
               MatchResult_Add r (EvaluableID part) (GroupID part))
         else (opt, r))"
proof -
  obtain opt r where old:
    "equalitySearch_parts none variable (bucket (equality n) (hash xx input)) (False, result) = (opt, r)"
    by (cases "equalitySearch_parts none variable (bucket (equality n) (hash xx input)) (False, result)")
  show ?thesis
    using old
    by (auto simp: equalitySearch_def equality_Add_Equals [OF assms] equalitySearch_parts_append Let_def)
qed

lemma equalitySearch_parts_result:
  "snd (equalitySearch_parts none variable parts (opt, result)) =
     result + mset (map pairOf (filter (\<lambda>s. Ident s = None \<or> Ident s = Some variable) parts))"
  by (induction parts arbitrary: opt result) (auto simp: MatchResult_Add_def pairOf_def)

lemma equalityTask_result:
  "snd (snd (equalityTask parse xx none n input path result)) =
     result + taskHits parse xx n input path"
  by (auto simp: equalityTask_def taskHits_def equalitySearch_def Let_def
        equalitySearch_parts_result split: sum.splits prod.splits
        dest: arg_cong [where f = snd])

lemma equalityPhase_result:
  "snd (snd (equalityPhase parse xx none n input paths st)) =
     snd (snd st) + (\<Sum>path\<leftarrow>paths. taskHits parse xx n input path)"
proof (induction paths arbitrary: st)
  case Nil
  then show ?case by simp
next
  case (Cons path paths)
  obtain err c result where st: "st = (err, c, result)" by (cases st)
  obtain e opt result' where t: "equalityTask parse xx none n input path result = (e, opt, result')"
    by (cases "equalityTask parse xx none n input path result")
  have "result' = result + taskHits parse xx n input path"
    using equalityTask_result [of parse xx none n input path result] t by simp
  then show ?case
    by (simp add: st t Cons.IH ac_simps)
qed

lemma taskHits_Add:
  assumes "Operator (Predicate p) = Equals"
  shows "taskHits parse xx (snd (Add xx toStored n p)) input path =
           taskHits parse xx n input path +
           (if reports parse xx input (LiteralAsString (Predicate p)) (toStored p) path
            then {#pairOf (toStored p)#} else {#})"
  by (auto simp: taskHits_def reports_def equality_Add_Equals [OF assms] split: sum.splits)

lemma sum_list_if_mset:
  "(\<Sum>x\<leftarrow>xs. if P x then {#a#} else {#}) = replicate_mset (length (filter P xs)) a"
  by (induction xs) auto

lemma equalityPhase_Add:
  assumes "Operator (Predicate p) = Equals"
  shows "snd (snd (equalityPhase parse xx none (snd (Add xx toStored n p)) input paths st)) =
           snd (snd (equalityPhase parse xx none n input paths st)) +
           replicate_mset
             (length (filter (reports parse xx input (LiteralAsString (Predicate p)) (toStored p)) paths))
             (pairOf (toStored p))"
  by (simp add: equalityPhase_result taskHits_Add [OF assms] sum_list_addf sum_list_if_mset)

lemma AddExprs_mset:
  "AddExprs result exprs = result + mset (map pairOf exprs)"
  by (induction exprs arbitrary: result) (auto simp: pairOf_def)

lemma inequalitySearch_exprs_mono: "result \<subseteq># inequalitySearch_exprs exprs result"
proof (induction exprs arbitrary: result)
  case Nil
  then show ?case by simp
next
  case (Cons expr exprs)
  have "result \<subseteq># add_mset (pairOf expr) result" by simp
  also have "\<dots> \<subseteq># inequalitySearch_exprs exprs (add_mset (pairOf expr) result)"
    by (rule Cons.IH)
  finally show ?case
    using Cons.IH [of result] by (simp add: Let_def pairOf_def)
qed

lemma inequalitySearch_values_mono:
  "result \<subseteq># inequalitySearch_values h opt m order result"
proof (induction order arbitrary: result)
  case Nil
  then show ?case by simp
next
  case (Cons v order)
  show ?case
  proof (cases "m v")
    case None
    then show ?thesis using Cons.IH by simp
  next
    case (Some exprs)
    have a: "result \<subseteq># inequalitySearch_values h opt m order (AddExprs result exprs)"
      by (rule subset_mset.order_trans [OF _ Cons.IH [of "AddExprs result exprs"]])
         (simp add: AddExprs_mset)
    have b: "result \<subseteq># inequalitySearch_values h opt m order (inequalitySearch_exprs exprs result)"
      using Cons.IH [of "inequalitySearch_exprs exprs result"] inequalitySearch_exprs_mono [of result exprs]
      by (rule subset_mset.order_trans [rotated])
    show ?thesis using Some a b Cons.IH [of result] by (cases opt) simp_all
  qed
qed

lemma inequalitySearch_mono: "result \<subseteq># inequalitySearch xx n order variable input opt result"
  by (simp add: inequalitySearch_def inequalitySearch_values_mono split: option.splits)

lemma inequalityPhase_mono:
  "snd st \<subseteq># snd (inequalityPhase parse xx n sched input c paths st)"
proof (induction paths arbitrary: st)
  case Nil
  then show ?case by simp
next
  case (Cons path paths)
  obtain err result where st: "st = (err, result)" by (cases st)
  obtain e result' where t:
    "inequalityTask parse xx n (valuesOrder sched path) input c path result = (e, result')"
    by (cases "inequalityTask parse xx n (valuesOrder sched path) input c path result")
  have "result \<subseteq># result'"
    using t inequalitySearch_mono [of result xx n "valuesOrder sched path" path]
    by (auto simp: inequalityTask_def Let_def split: sum.splits)
  moreover have "result' \<subseteq># snd (inequalityPhase parse xx n sched input c paths
                                  (if err = None then e else err, result'))"
    using Cons.IH [of "(if err = None then e else err, result')"] by simp
  ultimately show ?case
    by (simp add: st t)
qed

lemma Match_keeps_equalityPhase:
  "snd (snd (equalityPhase parse xx none n input (varsOrder sched) (None, 0, result)))
     \<subseteq># snd (Match parse xx none n sched input result)"
proof -
  obtain err c result1 where ph:
    "equalityPhase parse xx none n input (varsOrder sched) (None, 0, result) = (err, c, result1)"
    by (cases "equalityPhase parse xx none n input (varsOrder sched) (None, 0, result)")
  show ?thesis
    using inequalityPhase_mono [of "(None, result1)" parse xx n sched input c "inequalityOrder sched"]
    by (simp add: Match_def ph split: option.splits)
qed

lemma inequalitySearch_values_absent:
  "\<forall>v\<in>set order. m v = None \<Longrightarrow> inequalitySearch_values h opt m order result = result"
  by (induction order arbitrary: result) auto

lemma inequalitySearch_values_eq:
  "inequalitySearch xx n order variable input opt result =
     inequalitySearch_values (hash xx input) opt (inequalityAt n variable) order result"
proof (cases "inequality n variable")
  case None
  then show ?thesis
    by (simp add: inequalitySearch_def inequalityAt_def inequalitySearch_values_absent)
next
  case (Some m)
  show ?thesis
  proof (cases "dom m = {}")
    case True
    then have "\<forall>v\<in>set order. m v = None" by auto
    with Some True show ?thesis
      by (simp add: inequalitySearch_def inequalityAt_def inequalitySearch_values_absent)
  next
    case False
    with Some show ?thesis by (simp add: inequalitySearch_def inequalityAt_def)
  qed
qed

lemma inequalitySearch_values_cong:
  "\<forall>v. v \<noteq> h \<longrightarrow> m v = m' v \<Longrightarrow>
     inequalitySearch_values h opt m order result = inequalitySearch_values h opt m' order result"
proof (induction order arbitrary: result)
  case Nil
  then show ?case by simp
next
  case (Cons v order)
  show ?case
  proof (cases "v = h")
    case True
    then show ?thesis using Cons by (simp split: option.splits)
  next
    case False
    then have "m v = m' v" using Cons.prems by simp
    then show ?thesis using Cons by (cases opt) (simp_all split: option.splits)
  qed
qed

lemma inequalityAt_Add:
  assumes "Operator (Predicate p) = NotEquals"
  shows "inequalityAt (snd (Add xx toStored n p)) path =
           (if path = Predicate.Ident (Predicate p)
            then (inequalityAt n path)
                   (hash xx (LiteralAsString (Predicate p)) \<mapsto>
                      bucket (inequalityAt n path) (hash xx (LiteralAsString (Predicate p)))
                        @ [toStored p])
            else inequalityAt n path)"
  using assms by (auto simp: Add_def Let_def inequalityAt_def bucket_def split: option.splits)

lemma inequalitySearch_Add:
  assumes "Operator (Predicate p) = NotEquals"
    and "hash xx input = hash xx (LiteralAsString (Predicate p)) \<or>
         variable \<noteq> Predicate.Ident (Predicate p)"
  shows "inequalitySearch xx (snd (Add xx toStored n p)) order variable input opt result =
           inequalitySearch xx n order variable input opt result"
  unfolding inequalitySearch_values_eq
  using assms(2)
  by (intro inequalitySearch_values_cong) (auto simp: inequalityAt_Add [OF assms(1)])

lemma Add_NotEquals_equality:
  "Operator (Predicate p) = NotEquals \<Longrightarrow>
     equality (snd (Add xx toStored n p)) = equality n \<and> vars (snd (Add xx toStored n p)) = vars n"
  by (simp add: Add_def Let_def split: option.splits)

lemma equalityPhase_cong:
  "equality n1 = equality n2 \<Longrightarrow>
     equalityPhase parse xx none n1 input paths st = equalityPhase parse xx none n2 input paths st"
proof (induction paths arbitrary: st)
  case Nil
  then show ?case by simp
next
  case (Cons path paths)
  obtain err c result where st: "st = (err, c, result)" by (cases st)
  have "equalityTask parse xx none n1 input path result =
        equalityTask parse xx none n2 input path result"
    using Cons.prems by (simp add: equalityTask_def equalitySearch_def split: sum.splits)
  then show ?case using Cons by (simp add: st)
qed

lemma inequalityPhase_cong:
  "\<forall>path\<in>set paths. \<forall>result.
      inequalityTask parse xx n1 (valuesOrder sched path) input c path result =
      inequalityTask parse xx n2 (valuesOrder sched path) input c path result \<Longrightarrow>
   inequalityPhase parse xx n1 sched input c paths st =
   inequalityPhase parse xx n2 sched input c paths st"
proof (induction paths arbitrary: st)
  case Nil
  then show ?case by simp
next
  case (Cons path paths)
  obtain err result where st: "st = (err, result)" by (cases st)
  show ?case using Cons by (simp add: st)
qed

lemma Match_Add_NotEquals:
  assumes op: "Operator (Predicate p) = NotEquals"
    and x: "parse (Predicate.Ident (Predicate p)) = Inr x"
    and h: "hash xx (fieldString (x ev)) = hash xx (LiteralAsString (Predicate p))"
  shows "Match parse xx none (snd (Add xx toStored n p)) sched ev result =
         Match parse xx none n sched ev result"
proof -
  let ?n = "snd (Add xx toStored n p)"
  have eq: "equalityPhase parse xx none ?n ev (varsOrder sched) (None, 0, result) =
            equalityPhase parse xx none n ev (varsOrder sched) (None, 0, result)"
    by (rule equalityPhase_cong) (simp add: Add_NotEquals_equality [OF op])
  have task: "inequalityTask parse xx ?n order ev c path r =
              inequalityTask parse xx n order ev c path r" for order c path r
  proof (cases "path = Predicate.Ident (Predicate p)")
    case True
    then show ?thesis
      using x h by (simp add: inequalityTask_def inequalitySearch_Add [OF op])
  next
    case False
    then show ?thesis
      by (simp add: inequalityTask_def inequalitySearch_Add [OF op] split: sum.splits)
  qed
  have ph: "inequalityPhase parse xx ?n sched ev c paths st =
        inequalityPhase parse xx n sched ev c paths st" for c paths st
    by (rule inequalityPhase_cong) (simp add: task)
  show ?thesis
    by (simp add: Match_def eq ph split: prod.splits option.splits)
qed

lemma fieldString_default:
  "res = [] \<or> (\<exists>v vs. res = v # vs \<and> (\<forall>s. v \<noteq> String s)) \<Longrightarrow> fieldString res = ''''"
  by (auto simp: fieldString_def split: list.splits any.splits)

lemma int8_id: "- 128 \<le> v \<Longrightarrow> v \<le> 127 \<Longrightarrow> int8 v = v"
  unfolding int8_def by (simp add: sint_sbintrunc' signed_take_bit_int_eq_self)

lemma count_AddExprs:
  "count (AddExprs result exprs) (e, g) = count result (e, g) + groupHits e g exprs"
  by (induction exprs arbitrary: result) (auto simp: groupHits_def)

lemma groupHits_Nil [simp]: "groupHits e g [] = 0"
  by (simp add: groupHits_def)

lemma groupHits_append [simp]: "groupHits e g (xs @ ys) = groupHits e g xs + groupHits e g ys"
  by (simp add: groupHits_def)

lemma inequalitySearch_exprs_below:
  "int (count result (e, g)) < Flag g \<Longrightarrow> Flag g \<le> 127 \<Longrightarrow>
     count (inequalitySearch_exprs exprs result) (e, g) = count result (e, g)"
proof (induction exprs arbitrary: result)
  case Nil
  then show ?case by simp
next
  case (Cons expr exprs)
  show ?case
  proof (cases "EvaluableID expr = e \<and> GroupID expr = g")
    case True
    have "int8 (int (count result (e, g))) = int (count result (e, g))"
      using Cons.prems by (intro int8_id) auto
    moreover have "int8 (Flag g) = Flag g"
      using Cons.prems by (intro int8_id) auto
    ultimately show ?thesis
      using True Cons by (simp add: GroupMatches_def)
  next
    case False
    then have "count (add_mset (EvaluableID expr, GroupID expr) result) (e, g) = count result (e, g)"
      by auto
    then show ?thesis
      using Cons.IH [of result] Cons.IH [of "add_mset (EvaluableID expr, GroupID expr) result"]
        Cons.prems
      by (simp add: Let_def)
  qed
qed

lemma inequalitySearch_exprs_reached:
  "Flag g \<le> int (count result (e, g)) \<Longrightarrow> - 128 \<le> Flag g \<Longrightarrow>
   count result (e, g) + groupHits e g exprs \<le> 128 \<Longrightarrow>
     count (inequalitySearch_exprs exprs result) (e, g) = count result (e, g) + groupHits e g exprs"
proof (induction exprs arbitrary: result)
  case Nil
  then show ?case by (simp add: groupHits_def)
next
  case (Cons expr exprs)
  show ?case
  proof (cases "EvaluableID expr = e \<and> GroupID expr = g")
    case True
    then have gh: "groupHits e g (expr # exprs) = Suc (groupHits e g exprs)"
      by (simp add: groupHits_def)
    have "int8 (int (count result (e, g))) = int (count result (e, g))"
      using Cons.prems gh by (intro int8_id) auto
    moreover have "int8 (Flag g) = Flag g"
      using Cons.prems gh by (intro int8_id) auto
    ultimately have "inequalitySearch_exprs (expr # exprs) result =
        inequalitySearch_exprs exprs (add_mset (e, g) result)"
      using True Cons.prems by (simp add: GroupMatches_def)
    moreover have "count (inequalitySearch_exprs exprs (add_mset (e, g) result)) (e, g) =
        count (add_mset (e, g) result) (e, g) + groupHits e g exprs"
      using Cons.prems gh by (intro Cons.IH) auto
    ultimately show ?thesis by (simp add: gh)
  next
    case False
    then have gh: "groupHits e g (expr # exprs) = groupHits e g exprs"
      by (auto simp: groupHits_def)
    let ?r = "add_mset (EvaluableID expr, GroupID expr) result"
    have c: "count ?r (e, g) = count result (e, g)"
      using False by auto
    have "count (inequalitySearch_exprs exprs result) (e, g) =
            count result (e, g) + groupHits e g exprs"
      using Cons.prems gh by (intro Cons.IH) auto
    moreover have "count (inequalitySearch_exprs exprs ?r) (e, g) =
            count ?r (e, g) + groupHits e g exprs"
    proof (rule Cons.IH)
      show "Flag g \<le> int (count ?r (e, g))" unfolding c using Cons.prems by simp
      show "- 128 \<le> Flag g" using Cons.prems by simp
      show "count ?r (e, g) + groupHits e g exprs \<le> 128"
        unfolding c using Cons.prems gh by simp
    qed
    ultimately show ?thesis
      by (simp add: Let_def gh c del: count_add_mset)
  qed
qed

lemma visited_Cons:
  "visited h m (v # order) = (if v = h then [] else bucket m v) @ visited h m order"
  by (simp add: visited_def)

lemma inequalitySearch_values_below:
  "int (count result (e, g)) < Flag g \<Longrightarrow> Flag g \<le> 127 \<Longrightarrow>
     count (inequalitySearch_values h True m order result) (e, g) = count result (e, g)"
proof (induction order arbitrary: result)
  case Nil
  then show ?case by simp
next
  case (Cons v order)
  show ?case
  proof (cases "m v")
    case None
    then show ?thesis using Cons by simp
  next
    case (Some exprs)
    have "count (inequalitySearch_exprs exprs result) (e, g) = count result (e, g)"
      using Cons.prems by (rule inequalitySearch_exprs_below)
    then show ?thesis
      using Some Cons.IH [of result] Cons.IH [of "inequalitySearch_exprs exprs result"] Cons.prems
      by simp
  qed
qed

lemma inequalitySearch_values_reached:
  "Flag g \<le> int (count result (e, g)) \<Longrightarrow> - 128 \<le> Flag g \<Longrightarrow>
   count result (e, g) + groupHits e g (visited h m order) \<le> 128 \<Longrightarrow>
     count (inequalitySearch_values h True m order result) (e, g) =
       count result (e, g) + groupHits e g (visited h m order)"
proof (induction order arbitrary: result)
  case Nil
  then show ?case by (simp add: visited_def groupHits_def)
next
  case (Cons v order)
  show ?case
  proof (cases "m v")
    case None
    then have "visited h m (v # order) = visited h m order"
      by (simp add: visited_Cons bucket_def)
    then show ?thesis using None Cons by simp
  next
    case (Some exprs)
    show ?thesis
    proof (cases "v = h")
      case True
      then have "visited h m (v # order) = visited h m order"
        by (simp add: visited_Cons)
      then show ?thesis using Some True Cons by simp
    next
      case False
      then have vis: "visited h m (v # order) = exprs @ visited h m order"
        using Some by (simp add: visited_Cons bucket_def)
      let ?r = "inequalitySearch_exprs exprs result"
      have r: "count ?r (e, g) = count result (e, g) + groupHits e g exprs"
        using Cons.prems by (intro inequalitySearch_exprs_reached) (auto simp: vis)
      have "count (inequalitySearch_values h True m order ?r) (e, g) =
              count ?r (e, g) + groupHits e g (visited h m order)"
        using Cons.prems r by (intro Cons.IH) (auto simp: vis)
      then show ?thesis using Some False r by (simp add: vis)
    qed
  qed
qed

lemma inequalitySearch_values_unoptimized:
  "count (inequalitySearch_values h False m order result) (e, g) =
     count result (e, g) + groupHits e g (visited h m order)"
proof (induction order arbitrary: result)
  case Nil
  then show ?case by (simp add: visited_def groupHits_def)
next
  case (Cons v order)
  then show ?case
    by (auto simp: visited_Cons bucket_def count_AddExprs split: option.splits)
qed

lemma inequalitySearch_counts:
  "(int (count result (e, g)) < Flag g \<and> Flag g \<le> 127 \<longrightarrow>
      count (inequalitySearch xx n order variable input True result) (e, g) = count result (e, g)) \<and>
   (Flag g \<le> int (count result (e, g)) \<and> - 128 \<le> Flag g \<and>
    count result (e, g) +
      groupHits e g (visited (hash xx input) (inequalityAt n variable) order) \<le> 128 \<longrightarrow>
      count (inequalitySearch xx n order variable input True result) (e, g) =
        count result (e, g) +
        groupHits e g (visited (hash xx input) (inequalityAt n variable) order)) \<and>
   count (inequalitySearch xx n order variable input False result) (e, g) =
     count result (e, g) + groupHits e g (visited (hash xx input) (inequalityAt n variable) order)"
  by (simp add: inequalitySearch_values_eq inequalitySearch_values_below
      inequalitySearch_values_reached inequalitySearch_values_unoptimized)

lemma splice_set: "splice eq coll = Some coll' \<Longrightarrow> set coll' \<subseteq> set coll"
  by (induction coll arbitrary: coll') (auto split: if_splits)

lemma splice_distinct: "splice eq coll = Some coll' \<Longrightarrow> distinct coll \<Longrightarrow> distinct coll'"
  by (induction coll arbitrary: coll') (auto split: if_splits dest: splice_set [THEN subsetD])

lemma splice_None: "splice eq coll = None \<longleftrightarrow> (\<forall>s\<in>set coll. \<not> eq s)"
  by (induction coll) auto

lemma splice_snoc:
  "\<forall>s\<in>set coll. \<not> eq s \<Longrightarrow>
     splice eq (coll @ [x]) = (if eq x then Some coll else None)"
  by (induction coll) auto

lemma run_snoc:
  "run xx toStored equalsStored n (ops @ [op]) =
     step xx toStored equalsStored (run xx toStored equalsStored n ops) op"
  by (simp add: run_def)

lemma run_Nil: "run xx toStored equalsStored n [] = n"
  by (simp add: run_def)

lemma vars_Add:
  "vars (snd (Add xx toStored n p)) =
     (if Operator (Predicate p) = Equals then insert (Predicate.Ident (Predicate p)) (vars n)
      else vars n)"
  by (cases "Operator (Predicate p)") (auto simp: Add_def Let_def split: option.splits)

lemma vars_Remove: "vars (snd (Remove xx equalsStored n p)) = vars n"
  by (cases "Operator (Predicate p)") (auto simp: Remove_def Let_def split: option.splits)

lemma equality_Add:
  "bucket (equality (snd (Add xx toStored n p))) k =
     (if Operator (Predicate p) = Equals \<and> k = hash xx (LiteralAsString (Predicate p))
      then bucket (equality n) k @ [toStored p] else bucket (equality n) k)"
  by (cases "Operator (Predicate p)")
     (auto simp: Add_def Let_def bucket_def split: option.splits)

lemma inequality_Add:
  "bucket (inequalityAt (snd (Add xx toStored n p)) path) k =
     (if Operator (Predicate p) = NotEquals \<and> path = Predicate.Ident (Predicate p) \<and>
         k = hash xx (LiteralAsString (Predicate p))
      then bucket (inequalityAt n path) k @ [toStored p] else bucket (inequalityAt n path) k)"
  by (cases "Operator (Predicate p)")
     (auto simp: Add_def Let_def bucket_def inequalityAt_def split: option.splits)

lemma equality_Remove:
  "bucket (equality (snd (Remove xx equalsStored n p))) k =
     (if Operator (Predicate p) = Equals \<and> k = hash xx (LiteralAsString (Predicate p))
      then (case splice (equalsStored p) (bucket (equality n) k) of
              None \<Rightarrow> bucket (equality n) k | Some coll \<Rightarrow> coll)
      else bucket (equality n) k)"
  by (cases "Operator (Predicate p)")
     (auto simp: Remove_def Let_def bucket_def split: option.splits)

lemma inequality_Remove:
  "bucket (inequalityAt (snd (Remove xx equalsStored n p)) path) k =
     (if Operator (Predicate p) = NotEquals \<and> path = Predicate.Ident (Predicate p) \<and>
         k = hash xx (LiteralAsString (Predicate p))
      then (case splice (equalsStored p) (bucket (inequalityAt n path) k) of
              None \<Rightarrow> bucket (inequalityAt n path) k | Some coll \<Rightarrow> coll)
      else bucket (inequalityAt n path) k)"
  by (cases "Operator (Predicate p)")
     (auto simp: Remove_def Let_def bucket_def inequalityAt_def split: option.splits)

lemma in_equalityParts: "s \<in> equalityParts n \<longleftrightarrow> (\<exists>k. s \<in> set (bucket (equality n) k))"
  by (simp add: equalityParts_def)

lemma in_inequalityParts:
  "s \<in> inequalityParts n \<longleftrightarrow> (\<exists>path k. s \<in> set (bucket (inequalityAt n path) k))"
  by (simp add: inequalityParts_def)

lemma equalityParts_Add:
  "equalityParts (snd (Add xx toStored n p)) =
     (if Operator (Predicate p) = Equals then insert (toStored p) (equalityParts n)
      else equalityParts n)"
proof (cases "Operator (Predicate p) = Equals")
  case True
  let ?val = "hash xx (LiteralAsString (Predicate p))"
  have "s \<in> equalityParts (snd (Add xx toStored n p)) \<longleftrightarrow> s = toStored p \<or> s \<in> equalityParts n"
    for s
  proof
    assume "s \<in> equalityParts (snd (Add xx toStored n p))"
    then obtain k where "s \<in> set (bucket (equality (snd (Add xx toStored n p))) k)"
      by (auto simp: in_equalityParts)
    then have "s = toStored p \<or> s \<in> set (bucket (equality n) k)"
      by (simp add: equality_Add split: if_splits)
    then show "s = toStored p \<or> s \<in> equalityParts n"
      by (auto simp: in_equalityParts)
  next
    assume "s = toStored p \<or> s \<in> equalityParts n"
    then show "s \<in> equalityParts (snd (Add xx toStored n p))"
    proof
      assume "s = toStored p"
      then have "s \<in> set (bucket (equality (snd (Add xx toStored n p))) ?val)"
        using True by (simp add: equality_Add)
      then show ?thesis unfolding in_equalityParts by (rule exI)
    next
      assume "s \<in> equalityParts n"
      then obtain k where "s \<in> set (bucket (equality n) k)"
        by (auto simp: in_equalityParts)
      then have "s \<in> set (bucket (equality (snd (Add xx toStored n p))) k)"
        by (auto simp: equality_Add)
      then show ?thesis unfolding in_equalityParts by (rule exI)
    qed
  qed
  then show ?thesis using True by auto
next
  case False
  then show ?thesis by (simp add: equalityParts_def equality_Add)
qed

lemma set_equality_Remove:
  "set (bucket (equality (snd (Remove xx equalsStored n p))) k) \<subseteq> set (bucket (equality n) k)"
  by (auto simp: equality_Remove split: option.splits dest: splice_set [THEN subsetD])

lemma set_inequality_Remove:
  "set (bucket (inequalityAt (snd (Remove xx equalsStored n p)) path) k)
     \<subseteq> set (bucket (inequalityAt n path) k)"
  by (auto simp: inequality_Remove split: option.splits dest: splice_set [THEN subsetD])

lemma equalityParts_Remove:
  "equalityParts (snd (Remove xx equalsStored n p)) \<subseteq> equalityParts n"
proof
  fix s
  assume "s \<in> equalityParts (snd (Remove xx equalsStored n p))"
  then obtain k where "s \<in> set (bucket (equality (snd (Remove xx equalsStored n p))) k)"
    by (auto simp: in_equalityParts)
  then have "s \<in> set (bucket (equality n) k)"
    by (rule set_equality_Remove [THEN subsetD])
  then show "s \<in> equalityParts n"
    unfolding in_equalityParts by (rule exI)
qed

lemma inequalityParts_Add:
  "inequalityParts (snd (Add xx toStored n p)) =
     (if Operator (Predicate p) = NotEquals then insert (toStored p) (inequalityParts n)
      else inequalityParts n)"
proof (cases "Operator (Predicate p) = NotEquals")
  case True
  let ?val = "hash xx (LiteralAsString (Predicate p))"
  let ?ident = "Predicate.Ident (Predicate p)"
  have "s \<in> inequalityParts (snd (Add xx toStored n p)) \<longleftrightarrow>
          s = toStored p \<or> s \<in> inequalityParts n" for s
  proof
    assume "s \<in> inequalityParts (snd (Add xx toStored n p))"
    then obtain path k where
      "s \<in> set (bucket (inequalityAt (snd (Add xx toStored n p)) path) k)"
      by (auto simp: in_inequalityParts)
    then have "s = toStored p \<or> s \<in> set (bucket (inequalityAt n path) k)"
      by (simp add: inequality_Add split: if_splits)
    then show "s = toStored p \<or> s \<in> inequalityParts n"
      by (auto simp: in_inequalityParts)
  next
    assume "s = toStored p \<or> s \<in> inequalityParts n"
    then show "s \<in> inequalityParts (snd (Add xx toStored n p))"
    proof
      assume "s = toStored p"
      then have "s \<in> set (bucket (inequalityAt (snd (Add xx toStored n p)) ?ident) ?val)"
        using True by (simp add: inequality_Add)
      then show ?thesis unfolding in_inequalityParts by blast
    next
      assume "s \<in> inequalityParts n"
      then obtain path k where "s \<in> set (bucket (inequalityAt n path) k)"
        by (auto simp: in_inequalityParts)
      then have "s \<in> set (bucket (inequalityAt (snd (Add xx toStored n p)) path) k)"
        by (auto simp: inequality_Add)
      then show ?thesis unfolding in_inequalityParts by blast
    qed
  qed
  then show ?thesis using True by auto
next
  case False
  then show ?thesis by (simp add: inequalityParts_def inequality_Add)
qed

lemma inequalityParts_Remove:
  "inequalityParts (snd (Remove xx equalsStored n p)) \<subseteq> inequalityParts n"
proof
  fix s
  assume "s \<in> inequalityParts (snd (Remove xx equalsStored n p))"
  then obtain path k where
    "s \<in> set (bucket (inequalityAt (snd (Remove xx equalsStored n p)) path) k)"
    by (auto simp: in_inequalityParts)
  then have "s \<in> set (bucket (inequalityAt n path) k)"
    by (rule set_inequality_Remove [THEN subsetD])
  then show "s \<in> inequalityParts n"
    unfolding in_inequalityParts by blast
qed

lemma noDuplicates_Remove:
  "noDuplicates n \<Longrightarrow> noDuplicates (snd (Remove xx equalsStored n p))"
  by (auto simp: noDuplicates_def equality_Remove inequality_Remove
        split: option.splits intro: splice_distinct)

lemma noDuplicates_Add:
  "noDuplicates n \<Longrightarrow>
     noDuplicates (snd (Add xx toStored n p)) \<longleftrightarrow> toStored p \<notin> set (targetBucket xx n p)"
  by (cases "Operator (Predicate p)")
     (auto simp: noDuplicates_def equality_Add inequality_Add targetBucket_def)

lemma noDuplicates_new: "noDuplicates (newStringEqualityMatcher c)"
  by (simp add: noDuplicates_def newStringEqualityMatcher_def bucket_def inequalityAt_def)

lemma run_Cons:
  "run xx toStored equalsStored n (op # ops) =
     run xx toStored equalsStored (step xx toStored equalsStored n op) ops"
  by (simp add: run_def)

lemma noDuplicates_run:
  "noDuplicates n \<Longrightarrow> freshAdds xx toStored equalsStored n ops \<Longrightarrow>
     noDuplicates (run xx toStored equalsStored n ops)"
proof (induction ops arbitrary: n)
  case Nil
  then show ?case by (simp add: run_Nil)
next
  case (Cons op ops)
  have "noDuplicates (step xx toStored equalsStored n op)"
    using Cons.prems
    by (cases op) (simp_all add: step_def noDuplicates_Add noDuplicates_Remove)
  then show ?case
    using Cons.prems by (simp add: run_Cons Cons.IH)
qed

lemma vars_new [simp]: "vars (newStringEqualityMatcher c) = {}"
  by (simp add: newStringEqualityMatcher_def)

lemma equalityParts_new [simp]: "equalityParts (newStringEqualityMatcher c) = {}"
  by (simp add: equalityParts_def newStringEqualityMatcher_def bucket_def)

lemma inequalityParts_new [simp]: "inequalityParts (newStringEqualityMatcher c) = {}"
  by (simp add: inequalityParts_def newStringEqualityMatcher_def bucket_def inequalityAt_def)

lemma vars_run:
  "vars (run xx toStored equalsStored (newStringEqualityMatcher c) ops) =
     {Predicate.Ident (Predicate p) | p. OpAdd p \<in> set ops \<and> Operator (Predicate p) = Equals}"
proof (induction ops rule: rev_induct)
  case Nil
  then show ?case by (simp add: run_Nil)
next
  case (snoc op ops)
  show ?case
  proof (cases op)
    case (OpAdd q)
    then show ?thesis using snoc by (auto simp: run_snoc step_def vars_Add)
  next
    case (OpRemove q)
    then show ?thesis using snoc by (auto simp: run_snoc step_def vars_Remove)
  qed
qed

lemma equalityParts_run:
  "equalityParts (run xx toStored equalsStored (newStringEqualityMatcher c) ops) \<subseteq>
     toStored ` {p. OpAdd p \<in> set ops \<and> Operator (Predicate p) = Equals}"
proof (induction ops rule: rev_induct)
  case Nil
  then show ?case by (simp add: run_Nil)
next
  case (snoc op ops)
  show ?case
  proof (cases op)
    case (OpAdd q)
    then show ?thesis using snoc by (auto simp: run_snoc step_def equalityParts_Add)
  next
    case (OpRemove q)
    then show ?thesis
      using snoc equalityParts_Remove [of xx equalsStored _ q]
      by (simp add: run_snoc step_def) blast
  qed
qed

lemma inequalityParts_run:
  "inequalityParts (run xx toStored equalsStored (newStringEqualityMatcher c) ops) \<subseteq>
     toStored ` {p. OpAdd p \<in> set ops \<and> Operator (Predicate p) = NotEquals}"
proof (induction ops rule: rev_induct)
  case Nil
  then show ?case by (simp add: run_Nil)
next
  case (snoc op ops)
  show ?case
  proof (cases op)
    case (OpAdd q)
    then show ?thesis using snoc by (auto simp: run_snoc step_def inequalityParts_Add)
  next
    case (OpRemove q)
    then show ?thesis
      using snoc inequalityParts_Remove [of xx equalsStored _ q]
      by (simp add: run_snoc step_def) blast
  qed
qed

lemma equalityParts_run_adds:
  "\<forall>op\<in>set ops. \<exists>p. op = OpAdd p \<Longrightarrow>
   equalityParts (run xx toStored equalsStored (newStringEqualityMatcher c) ops) =
     toStored ` {p. OpAdd p \<in> set ops \<and> Operator (Predicate p) = Equals}"
proof (induction ops rule: rev_induct)
  case Nil
  then show ?case by (simp add: run_Nil)
next
  case (snoc op ops)
  then obtain q where "op = OpAdd q" by auto
  then show ?case using snoc by (auto simp: run_snoc step_def equalityParts_Add)
qed

lemma bucket_subset_equalityParts: "set (bucket (equality n) k) \<subseteq> equalityParts n"
  by (auto simp: in_equalityParts)

lemma bucket_subset_inequalityParts: "set (bucket (inequalityAt n path) k) \<subseteq> inequalityParts n"
  unfolding in_inequalityParts subset_iff by blast

lemma Remove_Equals_absent:
  assumes "Operator (Predicate p) = Equals"
    and "\<forall>s\<in>set (bucket (equality n) (hash xx (LiteralAsString (Predicate p)))). \<not> equalsStored p s"
  shows "Remove xx equalsStored n p = (Some ErrExpressionPartNotFound, n)"
proof -
  have "splice (equalsStored p) (bucket (equality n) (hash xx (LiteralAsString (Predicate p)))) = None"
    using assms(2) by (simp add: splice_None)
  then show ?thesis
    using assms(1) by (auto simp: Remove_def Let_def bucket_def split: option.splits)
qed

lemma Remove_NotEquals_absent:
  assumes "Operator (Predicate p) = NotEquals"
    and "\<forall>s\<in>set (bucket (inequalityAt n (Predicate.Ident (Predicate p)))
                   (hash xx (LiteralAsString (Predicate p)))). \<not> equalsStored p s"
  shows "Remove xx equalsStored n p =
     (if inequality n (Predicate.Ident (Predicate p)) \<noteq> None \<and>
         inequalityAt n (Predicate.Ident (Predicate p)) (hash xx (LiteralAsString (Predicate p))) = None
      then (None, n) else (Some ErrExpressionPartNotFound, n))"
proof -
  have "splice (equalsStored p)
          (bucket (inequalityAt n (Predicate.Ident (Predicate p)))
             (hash xx (LiteralAsString (Predicate p)))) = None"
    using assms(2) by (simp add: splice_None)
  then show ?thesis
    using assms(1)
    by (auto simp: Remove_def Let_def bucket_def inequalityAt_def split: option.splits)
qed

lemma Add_Remove_Remove:
  assumes absent: "\<forall>s\<in>set (targetBucket xx n p). \<not> equalsStored p s"
    and ok: "fst (Remove xx equalsStored (snd (Add xx toStored n p)) p) = None"
  shows "fst (Remove xx equalsStored (snd (Remove xx equalsStored (snd (Add xx toStored n p)) p)) p) =
           Some ErrExpressionPartNotFound"
proof (cases "Operator (Predicate p)")
  case Equals
  let ?val = "hash xx (LiteralAsString (Predicate p))"
  let ?n1 = "snd (Add xx toStored n p)"
  let ?n2 = "snd (Remove xx equalsStored ?n1 p)"
  have old: "\<forall>s\<in>set (bucket (equality n) ?val). \<not> equalsStored p s"
    using absent Equals by (simp add: targetBucket_def)
  have b1: "bucket (equality ?n1) ?val = bucket (equality n) ?val @ [toStored p]"
    using Equals by (simp add: equality_Add)
  have "equalsStored p (toStored p)"
  proof (rule ccontr)
    assume "\<not> equalsStored p (toStored p)"
    then have "\<forall>s\<in>set (bucket (equality ?n1) ?val). \<not> equalsStored p s"
      using old b1 by auto
    then have "Remove xx equalsStored ?n1 p = (Some ErrExpressionPartNotFound, ?n1)"
      using Equals by (intro Remove_Equals_absent) auto
    then show False using ok by simp
  qed
  then have "bucket (equality ?n2) ?val = bucket (equality n) ?val"
    using Equals old by (simp add: equality_Remove b1 splice_snoc)
  then have "Remove xx equalsStored ?n2 p = (Some ErrExpressionPartNotFound, ?n2)"
    using Equals old by (intro Remove_Equals_absent) auto
  then show ?thesis by simp
next
  case NotEquals
  let ?val = "hash xx (LiteralAsString (Predicate p))"
  let ?ident = "Predicate.Ident (Predicate p)"
  let ?n1 = "snd (Add xx toStored n p)"
  let ?n2 = "snd (Remove xx equalsStored ?n1 p)"
  have old: "\<forall>s\<in>set (bucket (inequalityAt n ?ident) ?val). \<not> equalsStored p s"
    using absent NotEquals by (simp add: targetBucket_def)
  have b1: "bucket (inequalityAt ?n1 ?ident) ?val = bucket (inequalityAt n ?ident) ?val @ [toStored p]"
    using NotEquals by (simp add: inequality_Add)
  have present1: "inequality ?n1 ?ident \<noteq> None \<and> inequalityAt ?n1 ?ident ?val \<noteq> None"
    using NotEquals by (auto simp: Add_def Let_def inequalityAt_def split: option.splits)
  have "equalsStored p (toStored p)"
  proof (rule ccontr)
    assume "\<not> equalsStored p (toStored p)"
    then have "\<forall>s\<in>set (bucket (inequalityAt ?n1 ?ident) ?val). \<not> equalsStored p s"
      using old b1 by auto
    then have "Remove xx equalsStored ?n1 p = (Some ErrExpressionPartNotFound, ?n1)"
      using NotEquals present1 by (subst Remove_NotEquals_absent) auto
    then show False using ok by simp
  qed
  then have b2: "bucket (inequalityAt ?n2 ?ident) ?val = bucket (inequalityAt n ?ident) ?val"
    using NotEquals old by (simp add: inequality_Remove b1 splice_snoc)
  have present2: "inequality ?n2 ?ident \<noteq> None \<and> inequalityAt ?n2 ?ident ?val \<noteq> None"
    using NotEquals present1
    by (auto simp: Remove_def Let_def inequalityAt_def split: option.splits)
  have "Remove xx equalsStored ?n2 p = (Some ErrExpressionPartNotFound, ?n2)"
    using NotEquals old b2 present2 by (subst Remove_NotEquals_absent) auto
  then show ?thesis by simp
next
  case (OtherOperator x)
  then show ?thesis using ok by (simp add: Add_def Remove_def)
qed

lemma never_added_absent:
  assumes "\<forall>q. OpAdd q \<in> set ops \<longrightarrow> \<not> equalsStored p (toStored q)"
  shows "\<forall>s\<in>equalityParts (run xx toStored equalsStored (newStringEqualityMatcher c) ops)
             \<union> inequalityParts (run xx toStored equalsStored (newStringEqualityMatcher c) ops).
           \<not> equalsStored p s"
  using assms equalityParts_run [of xx toStored equalsStored c ops]
    inequalityParts_run [of xx toStored equalsStored c ops]
  by blast

lemma targetBucket_subset: "set (targetBucket xx n p) \<subseteq> equalityParts n \<union> inequalityParts n"
  using bucket_subset_equalityParts [of n "hash xx (LiteralAsString (Predicate p))"]
    bucket_subset_inequalityParts
      [of n "Predicate.Ident (Predicate p)" "hash xx (LiteralAsString (Predicate p))"]
  by (cases "Operator (Predicate p)") (auto simp: targetBucket_def)


text \<open>
  Among the paths of a schedule that fits the engine, a part that keeps an identifier is
  reported on the path of that identifier only.
\<close>

lemma filter_own_path:
  assumes d: "distinct paths" and i: "i \<in> set paths"
    and own: "\<And>path. path \<in> set paths \<Longrightarrow> P path \<Longrightarrow> path = i"
  shows "length (filter P paths) = (if P i then 1 else 0)"
proof (cases "P i")
  case True
  have "{x. P x} \<inter> set paths = {i}"
  proof (rule set_eqI)
    fix x
    show "x \<in> {x. P x} \<inter> set paths \<longleftrightarrow> x \<in> {i}"
    proof
      assume "x \<in> {x. P x} \<inter> set paths"
      then have "P x" and "x \<in> set paths" by simp_all
      then have "x = i" by (rule own [rotated])
      then show "x \<in> {i}" by simp
    next
      assume "x \<in> {i}"
      then have "x = i" by simp
      then show "x \<in> {x. P x} \<inter> set paths" using True i by simp
    qed
  qed
  then have "card ({x. P x} \<inter> set paths) = 1" by simp
  then have "length (filter P paths) = 1"
    by (simp only: distinct_length_filter [OF d])
  then show ?thesis
    using True by simp
next
  case False
  have "\<not> P x" if "x \<in> set paths" for x
    using own [OF that] False by blast
  then have "filter P paths = []"
    unfolding filter_empty_conv by blast
  then show ?thesis
    using False by simp
qed

lemma reports_valid_schedule:
  assumes "Operator (Predicate p) = Equals"
    and "validSchedule (snd (Add xx toStored n p)) sched"
    and "Ident part = Some (Predicate.Ident (Predicate p))"
  shows "length (filter (reports parse xx ev lit part) (varsOrder sched)) =
           (if reports parse xx ev lit part (Predicate.Ident (Predicate p)) then 1 else 0)"
proof (rule filter_own_path)
  show "distinct (varsOrder sched)"
    using assms(2) by (simp add: validSchedule_def)
  show "Predicate.Ident (Predicate p) \<in> set (varsOrder sched)"
    using assms(1,2) by (simp add: validSchedule_def vars_Add)
  show "path = Predicate.Ident (Predicate p)"
    if "path \<in> set (varsOrder sched)" and "reports parse xx ev lit part path" for path
    using that(2) assms(3) by (cases "parse path") (simp_all add: reports_def)
qed

lemma Add_twice_duplicates:
  "Operator (Predicate p) = Equals \<or> Operator (Predicate p) = NotEquals \<Longrightarrow>
     \<not> noDuplicates (snd (Add xx toStored (snd (Add xx toStored n p)) p))"
proof
  assume op: "Operator (Predicate p) = Equals \<or> Operator (Predicate p) = NotEquals"
    and nd: "noDuplicates (snd (Add xx toStored (snd (Add xx toStored n p)) p))"
  let ?val = "hash xx (LiteralAsString (Predicate p))"
  let ?ident = "Predicate.Ident (Predicate p)"
  let ?n2 = "snd (Add xx toStored (snd (Add xx toStored n p)) p)"
  from op show False
  proof
    assume e: "Operator (Predicate p) = Equals"
    have "distinct (bucket (equality ?n2) ?val)"
      using nd by (simp add: noDuplicates_def)
    then show False using e by (simp add: equality_Add)
  next
    assume e: "Operator (Predicate p) = NotEquals"
    have "distinct (bucket (inequalityAt ?n2 ?ident) ?val)"
      using nd by (simp add: noDuplicates_def)
    then show False using e by (simp add: inequality_Add)
  qed
qed

text \<open>
  The comparison of \<open>inequalitySearch\<close> is made after the conversion to \<open>int8\<close>: a count
  of 128 is read as -128, and a part of a group of flag 1 is then passed over.
\<close>

lemma int8_wraps: "int8 128 = - 128"
  by (simp add: int8_def)

lemma inequalitySearch_exprs_wraps:
  "Flag (GroupID expr) = 1 \<Longrightarrow>
     inequalitySearch_exprs [expr] (replicate_mset 128 (pairOf expr)) =
       replicate_mset 128 (pairOf expr)"
  by (simp add: GroupMatches_def pairOf_def int8_def)

text \<open>
  Lemmas on \<open>Match\<close>: the engine after \<open>Add\<close> of an equality part that no task
  reports, the counter of the first phase, the hits of the second phase, and the event as
  the tasks read it.
\<close>

lemma equalitySearch_Add_noreport:
  assumes "Operator (Predicate p) = Equals"
    and "\<not> (hash xx input = hash xx (LiteralAsString (Predicate p)) \<and>
            (Ident (toStored p) = None \<or> Ident (toStored p) = Some variable))"
  shows "equalitySearch xx none (snd (Add xx toStored n p)) variable input result =
           equalitySearch xx none n variable input result"
proof (cases "hash xx input = hash xx (LiteralAsString (Predicate p))")
  case False
  then show ?thesis
    by (simp add: equalitySearch_def equality_Add_Equals [OF assms(1)])
next
  case True
  then have i: "Ident (toStored p) \<noteq> None" "the (Ident (toStored p)) \<noteq> variable"
    using assms(2) by auto
  obtain opt r where old:
    "equalitySearch_parts none variable (bucket (equality n) (hash xx input)) (False, result) = (opt, r)"
    by (cases "equalitySearch_parts none variable (bucket (equality n) (hash xx input)) (False, result)")
  show ?thesis
    using i old
    by (simp add: equalitySearch_def equality_Add_Equals [OF assms(1)] equalitySearch_parts_append True)
qed

lemma equalityTask_Add_noreport:
  assumes "Operator (Predicate p) = Equals"
    and "\<not> reports parse xx ev (LiteralAsString (Predicate p)) (toStored p) path"
  shows "equalityTask parse xx none (snd (Add xx toStored n p)) ev path result =
           equalityTask parse xx none n ev path result"
proof (cases "parse path")
  case (Inl err)
  then show ?thesis by (simp add: equalityTask_def)
next
  case (Inr x)
  then have "\<not> (hash xx (fieldString (x ev)) = hash xx (LiteralAsString (Predicate p)) \<and>
            (Ident (toStored p) = None \<or> Ident (toStored p) = Some path))"
    using assms(2) by (simp add: reports_def)
  then have "equalitySearch xx none (snd (Add xx toStored n p)) path (fieldString (x ev)) result =
             equalitySearch xx none n path (fieldString (x ev)) result"
    by (rule equalitySearch_Add_noreport [OF assms(1)])
  then show ?thesis using Inr by (simp add: equalityTask_def)
qed

lemma equalityPhase_Add_noreport:
  assumes "Operator (Predicate p) = Equals"
  shows "\<forall>path\<in>set paths. \<not> reports parse xx ev (LiteralAsString (Predicate p)) (toStored p) path \<Longrightarrow>
     equalityPhase parse xx none (snd (Add xx toStored n p)) ev paths st =
     equalityPhase parse xx none n ev paths st"
proof (induction paths arbitrary: st)
  case Nil
  then show ?case by simp
next
  case (Cons path paths)
  obtain err c result where st: "st = (err, c, result)" by (cases st)
  have "\<not> reports parse xx ev (LiteralAsString (Predicate p)) (toStored p) path"
    using Cons.prems by simp
  then have t: "equalityTask parse xx none (snd (Add xx toStored n p)) ev path result =
             equalityTask parse xx none n ev path result"
    by (rule equalityTask_Add_noreport [OF assms])
  have "\<forall>q\<in>set paths. \<not> reports parse xx ev (LiteralAsString (Predicate p)) (toStored p) q"
    using Cons.prems by simp
  then show ?case
    by (simp add: st t Cons.IH)
qed

lemma Add_Equals_inequality:
  "Operator (Predicate p) = Equals \<Longrightarrow> inequality (snd (Add xx toStored n p)) = inequality n"
  by (simp add: Add_def Let_def split: option.splits)

lemma inequalityPhase_same_index:
  assumes "inequality n1 = inequality n2"
  shows "inequalityPhase parse xx n1 sched input c paths st =
         inequalityPhase parse xx n2 sched input c paths st"
proof (rule inequalityPhase_cong)
  show "\<forall>path\<in>set paths. \<forall>result.
          inequalityTask parse xx n1 (valuesOrder sched path) input c path result =
          inequalityTask parse xx n2 (valuesOrder sched path) input c path result"
    using assms by (simp add: inequalityTask_def inequalitySearch_def split: sum.splits)
qed

lemma Match_Add_noreport:
  assumes "Operator (Predicate p) = Equals"
    and "\<forall>path\<in>set (varsOrder sched).
           \<not> reports parse xx ev (LiteralAsString (Predicate p)) (toStored p) path"
  shows "Match parse xx none (snd (Add xx toStored n p)) sched ev result =
         Match parse xx none n sched ev result"
proof -
  have e: "equalityPhase parse xx none (snd (Add xx toStored n p)) ev (varsOrder sched) (None, 0, result) =
           equalityPhase parse xx none n ev (varsOrder sched) (None, 0, result)"
    using assms(2) by (rule equalityPhase_Add_noreport [OF assms(1)])
  have i: "inequalityPhase parse xx (snd (Add xx toStored n p)) sched ev c paths st =
           inequalityPhase parse xx n sched ev c paths st" for c paths st
    by (rule inequalityPhase_same_index) (rule Add_Equals_inequality [OF assms(1)])
  show ?thesis
    by (simp add: Match_def e i split: prod.splits option.splits)
qed

lemma Match_Add_reported:
  assumes "Operator (Predicate p) = Equals"
  shows "count result (pairOf (toStored p)) +
           length (filter (reports parse xx ev (LiteralAsString (Predicate p)) (toStored p))
                     (varsOrder sched))
           \<le> count (snd (Match parse xx none (snd (Add xx toStored n p)) sched ev result))
                (pairOf (toStored p))"
proof -
  let ?n = "snd (Add xx toStored n p)"
  let ?k = "length (filter (reports parse xx ev (LiteralAsString (Predicate p)) (toStored p))
                     (varsOrder sched))"
  let ?ph = "snd (snd (equalityPhase parse xx none ?n ev (varsOrder sched) (None, 0, result)))"
  have "?ph = snd (snd (equalityPhase parse xx none n ev (varsOrder sched) (None, 0, result))) +
              replicate_mset ?k (pairOf (toStored p))"
    by (rule equalityPhase_Add [OF assms])
  also have "snd (snd (equalityPhase parse xx none n ev (varsOrder sched) (None, 0, result))) =
               result + (\<Sum>path\<leftarrow>varsOrder sched. taskHits parse xx n ev path)"
    by (simp add: equalityPhase_result)
  finally have "count result (pairOf (toStored p)) + ?k \<le> count ?ph (pairOf (toStored p))"
    by simp
  also have "\<dots> \<le> count (snd (Match parse xx none ?n sched ev result)) (pairOf (toStored p))"
    by (rule mset_subset_eq_count [OF Match_keeps_equalityPhase])
  finally show ?thesis .
qed

lemma equalitySearch_result:
  "snd (equalitySearch xx none n variable input result) =
     result + mset (map pairOf (filter (\<lambda>s. Ident s = None \<or> Ident s = Some variable)
                (bucket (equality n) (hash xx input))))"
  by (simp add: equalitySearch_def equalitySearch_parts_result)

lemma sint_counter: "k < 2 ^ 31 \<Longrightarrow> sint (of_nat k :: 32 word) = int k"
  by (simp add: signed_of_nat signed_take_bit_int_eq_self)

lemma equalitySearch_parts_flag:
  "fst (equalitySearch_parts none variable parts (opt, result)) \<longleftrightarrow>
     opt \<or> list_ex (\<lambda>s. (Ident s = None \<or> Ident s = Some variable) \<and> Flag (GroupID s) \<noteq> none) parts"
  by (induction parts arbitrary: opt result) auto

lemma equalityTask_flag:
  "fst (snd (equalityTask parse xx none n input path result)) = signals parse xx none n input path"
proof (cases "parse path")
  case (Inl err)
  then show ?thesis by (simp add: equalityTask_def signals_def)
next
  case (Inr x)
  obtain opt r where s:
    "equalitySearch xx none n path (fieldString (x input)) result = (opt, r)"
    by (cases "equalitySearch xx none n path (fieldString (x input)) result")
  have "opt = fst (equalitySearch xx none n path (fieldString (x input)) result)"
    by (simp add: s)
  also have "\<dots> = signals parse xx none n input path"
    by (simp add: equalitySearch_def equalitySearch_parts_flag signals_def Inr)
  finally show ?thesis
    by (simp add: equalityTask_def Inr s)
qed

lemma equalityPhase_counter:
  "fst (snd (equalityPhase parse xx none n input paths st)) =
     fst (snd st) + of_nat (length (filter (signals parse xx none n input) paths))"
proof (induction paths arbitrary: st)
  case Nil
  then show ?case by simp
next
  case (Cons path paths)
  obtain err c result where st: "st = (err, c, result)" by (cases st)
  obtain e opt result' where t: "equalityTask parse xx none n input path result = (e, opt, result')"
    by (cases "equalityTask parse xx none n input path result")
  have "opt = signals parse xx none n input path"
    using equalityTask_flag [of parse xx none n input path result] by (simp add: t)
  then show ?case
    by (simp add: st t Cons.IH)
qed

lemma signal_raised:
  assumes "length paths < 2 ^ 31"
    and "equalityPhase parse xx none n input paths (err, 0, result) = (err', c, r1)"
  shows "0 < sint c \<longleftrightarrow> (\<exists>path\<in>set paths. signals parse xx none n input path)"
proof -
  let ?k = "length (filter (signals parse xx none n input) paths)"
  have c: "c = of_nat ?k"
    using equalityPhase_counter [of parse xx none n input paths "(err, 0, result)"] assms(2)
    by simp
  have "?k \<le> length paths" by simp
  then have "?k < 2 ^ 31" using assms(1) by (rule le_less_trans)
  then have "sint c = int ?k" unfolding c by (rule sint_counter)
  then have "0 < sint c \<longleftrightarrow> filter (signals parse xx none n input) paths \<noteq> []"
    by simp
  then show ?thesis
    by (simp add: filter_empty_conv)
qed

lemma inequalitySearch_exprs_append:
  "inequalitySearch_exprs (b1 @ b2) result =
     inequalitySearch_exprs b2 (inequalitySearch_exprs b1 result)"
  by (induction b1 arbitrary: result) (simp_all add: Let_def)

lemma inequalitySearch_values_append:
  "inequalitySearch_values h opt m (ks1 @ ks2) result =
     inequalitySearch_values h opt m ks2 (inequalitySearch_values h opt m ks1 result)"
proof (induction ks1 arbitrary: result)
  case Nil
  then show ?case by simp
next
  case (Cons k ks1)
  then show ?case by (cases opt) (simp_all split: option.splits)
qed

lemma inequalitySearch_exprs_step:
  assumes "- 128 \<le> Flag (GroupID s)" and "Flag (GroupID s) \<le> 127"
    and "GroupMatches result (EvaluableID s) (GroupID s) \<le> 127"
  shows "inequalitySearch_exprs (s # b) result =
           inequalitySearch_exprs b
             (if GroupMatches result (EvaluableID s) (GroupID s) < Flag (GroupID s)
              then result else add_mset (pairOf s) result)"
proof -
  have "int8 (GroupMatches result (EvaluableID s) (GroupID s)) =
        GroupMatches result (EvaluableID s) (GroupID s)"
    using assms(3) by (intro int8_id) (simp_all add: GroupMatches_def)
  moreover have "int8 (Flag (GroupID s)) = Flag (GroupID s)"
    using assms(1,2) by (rule int8_id)
  ultimately show ?thesis
    by (simp add: Let_def pairOf_def)
qed

lemma inequalitySearch_hit:
  assumes "order = ks1 @ k # ks2"
    and "inequalityAt n variable k = Some (b1 @ s # b2)"
    and "k \<noteq> hash xx input"
    and "cur = inequalitySearch_exprs b1
                 (inequalitySearch_values (hash xx input) True (inequalityAt n variable) ks1 result)"
    and "- 128 \<le> Flag (GroupID s)" and "Flag (GroupID s) \<le> 127"
    and "GroupMatches cur (EvaluableID s) (GroupID s) \<le> 127"
  shows "inequalitySearch xx n order variable input True result =
           inequalitySearch_values (hash xx input) True (inequalityAt n variable) ks2
             (inequalitySearch_exprs b2
                (if GroupMatches cur (EvaluableID s) (GroupID s) < Flag (GroupID s)
                 then cur else add_mset (pairOf s) cur))"
proof -
  let ?h = "hash xx input"
  let ?m = "inequalityAt n variable"
  let ?r1 = "inequalitySearch_values ?h True ?m ks1 result"
  have "inequalitySearch xx n order variable input True result =
          inequalitySearch_values ?h True ?m (k # ks2) ?r1"
    by (simp add: inequalitySearch_values_eq assms(1) inequalitySearch_values_append)
  also have "\<dots> = inequalitySearch_values ?h True ?m ks2 (inequalitySearch_exprs (b1 @ s # b2) ?r1)"
    using assms(2,3) by simp
  also have "inequalitySearch_exprs (b1 @ s # b2) ?r1 =
               inequalitySearch_exprs (s # b2) cur"
    by (simp add: inequalitySearch_exprs_append assms(4))
  also have "\<dots> = inequalitySearch_exprs b2
                (if GroupMatches cur (EvaluableID s) (GroupID s) < Flag (GroupID s)
                 then cur else add_mset (pairOf s) cur)"
    using assms(5,6,7) by (rule inequalitySearch_exprs_step)
  finally show ?thesis .
qed

lemma inequalityTask_result:
  "snd (inequalityTask parse xx n order input c path result) =
     (case parse path of
        Inl err \<Rightarrow> result
      | Inr x \<Rightarrow>
          inequalitySearch_values (hash xx (fieldString (x input))) (0 < sint c)
            (inequalityAt n path) order result)"
  by (simp add: inequalityTask_def inequalitySearch_values_eq split: sum.splits)

lemma phaseVisited_Cons:
  "phaseVisited parse xx n sched input (path # paths) =
     (case parse path of
        Inl err \<Rightarrow> []
      | Inr x \<Rightarrow>
          visited (hash xx (fieldString (x input))) (inequalityAt n path) (valuesOrder sched path))
     @ phaseVisited parse xx n sched input paths"
  by (simp add: phaseVisited_def)

lemma phaseVisited_Nil: "phaseVisited parse xx n sched input [] = []"
  by (simp add: phaseVisited_def)

lemma inequalityPhase_step:
  "snd (inequalityPhase parse xx n sched input c (path # paths) (err, result)) =
     snd (inequalityPhase parse xx n sched input c paths
            (err, snd (inequalityTask parse xx n (valuesOrder sched path) input c path result)))"
proof -
  obtain e result' where t:
    "inequalityTask parse xx n (valuesOrder sched path) input c path result = (e, result')"
    by (cases "inequalityTask parse xx n (valuesOrder sched path) input c path result")
  have "snd (inequalityPhase parse xx n sched input c paths (a, result')) =
        snd (inequalityPhase parse xx n sched input c paths (b, result'))" for a b
    by (induction paths arbitrary: a b result') (auto split: prod.splits)
  then show ?thesis by (simp add: t)
qed

lemma inequalityPhase_below:
  assumes "0 < sint c" and "Flag g \<le> 127"
  shows "int (count result (e, g)) < Flag g \<Longrightarrow>
     count (snd (inequalityPhase parse xx n sched input c paths (err, result))) (e, g) =
       count result (e, g)"
proof (induction paths arbitrary: err result)
  case Nil
  then show ?case by simp
next
  case (Cons path paths)
  let ?r = "snd (inequalityTask parse xx n (valuesOrder sched path) input c path result)"
  have r: "count ?r (e, g) = count result (e, g)"
    using Cons.prems assms
    by (simp add: inequalityTask_result inequalitySearch_values_below split: sum.splits)
  have "count (snd (inequalityPhase parse xx n sched input c paths (err, ?r))) (e, g) =
          count ?r (e, g)"
    using Cons.prems by (intro Cons.IH) (simp only: r)
  then show ?case
    by (simp only: inequalityPhase_step r)
qed

lemma inequalityPhase_reached:
  assumes "0 < sint c" and "- 128 \<le> Flag g"
  shows "Flag g \<le> int (count result (e, g)) \<Longrightarrow>
     count result (e, g) + groupHits e g (phaseVisited parse xx n sched input paths) \<le> 128 \<Longrightarrow>
     count (snd (inequalityPhase parse xx n sched input c paths (err, result))) (e, g) =
       count result (e, g) + groupHits e g (phaseVisited parse xx n sched input paths)"
proof (induction paths arbitrary: err result)
  case Nil
  then show ?case by (simp add: phaseVisited_Nil)
next
  case (Cons path paths)
  let ?r = "snd (inequalityTask parse xx n (valuesOrder sched path) input c path result)"
  let ?v = "case parse path of
              Inl err \<Rightarrow> []
            | Inr x \<Rightarrow>
                visited (hash xx (fieldString (x input))) (inequalityAt n path)
                  (valuesOrder sched path)"
  have pv: "groupHits e g (phaseVisited parse xx n sched input (path # paths)) =
              groupHits e g ?v + groupHits e g (phaseVisited parse xx n sched input paths)"
    by (simp add: phaseVisited_Cons)
  have r: "count ?r (e, g) = count result (e, g) + groupHits e g ?v"
  proof (cases "parse path")
    case (Inl a)
    then show ?thesis by (simp add: inequalityTask_result)
  next
    case (Inr x)
    have "count (inequalitySearch_values (hash xx (fieldString (x input))) True
                   (inequalityAt n path) (valuesOrder sched path) result) (e, g) =
          count result (e, g) +
          groupHits e g (visited (hash xx (fieldString (x input))) (inequalityAt n path)
                           (valuesOrder sched path))"
      using Cons.prems assms(2) Inr
      by (intro inequalitySearch_values_reached) (simp_all add: pv)
    then show ?thesis
      using assms(1) Inr by (simp add: inequalityTask_result)
  qed
  have "count (snd (inequalityPhase parse xx n sched input c paths (err, ?r))) (e, g) =
          count ?r (e, g) + groupHits e g (phaseVisited parse xx n sched input paths)"
  proof (rule Cons.IH)
    show "Flag g \<le> int (count ?r (e, g))"
      unfolding r using Cons.prems(1) by simp
    show "count ?r (e, g) + groupHits e g (phaseVisited parse xx n sched input paths) \<le> 128"
      unfolding r using Cons.prems(2) by (simp add: pv)
  qed
  then show ?case
    by (simp only: inequalityPhase_step r pv)
qed

lemma inequalityPhase_unoptimized:
  assumes "\<not> 0 < sint c"
  shows "count (snd (inequalityPhase parse xx n sched input c paths (err, result))) (e, g) =
       count result (e, g) + groupHits e g (phaseVisited parse xx n sched input paths)"
proof (induction paths arbitrary: err result)
  case Nil
  then show ?case by (simp add: phaseVisited_Nil)
next
  case (Cons path paths)
  let ?r = "snd (inequalityTask parse xx n (valuesOrder sched path) input c path result)"
  let ?v = "case parse path of
              Inl err \<Rightarrow> []
            | Inr x \<Rightarrow>
                visited (hash xx (fieldString (x input))) (inequalityAt n path)
                  (valuesOrder sched path)"
  have pv: "groupHits e g (phaseVisited parse xx n sched input (path # paths)) =
              groupHits e g ?v + groupHits e g (phaseVisited parse xx n sched input paths)"
    by (simp add: phaseVisited_Cons)
  have r: "count ?r (e, g) = count result (e, g) + groupHits e g ?v"
    using assms
    by (cases "parse path")
       (simp_all add: inequalityTask_result inequalitySearch_values_unoptimized)
  have "count (snd (inequalityPhase parse xx n sched input c paths (err, ?r))) (e, g) =
          count ?r (e, g) + groupHits e g (phaseVisited parse xx n sched input paths)"
    by (rule Cons.IH)
  then show ?case
    by (simp only: inequalityPhase_step r pv)
qed

lemma Match_second_phase:
  "equalityPhase parse xx none n ev (varsOrder sched) (None, 0, result) = (None, c, r1) \<Longrightarrow>
     Match parse xx none n sched ev result =
       inequalityPhase parse xx n sched ev c (inequalityOrder sched) (None, r1)"
  by (simp add: Match_def)

lemma Match_counts:
  assumes ph: "equalityPhase parse xx none n ev (varsOrder sched) (None, 0, result) = (None, c, r1)"
  shows "(0 < sint c \<and> int (count r1 (e, g)) < Flag g \<and> Flag g \<le> 127 \<longrightarrow>
            count (snd (Match parse xx none n sched ev result)) (e, g) = count r1 (e, g)) \<and>
         (0 < sint c \<and> Flag g \<le> int (count r1 (e, g)) \<and> - 128 \<le> Flag g \<and>
          count r1 (e, g) +
            groupHits e g (phaseVisited parse xx n sched ev (inequalityOrder sched)) \<le> 128 \<longrightarrow>
            count (snd (Match parse xx none n sched ev result)) (e, g) =
              count r1 (e, g) +
              groupHits e g (phaseVisited parse xx n sched ev (inequalityOrder sched))) \<and>
         (\<not> 0 < sint c \<longrightarrow>
            count (snd (Match parse xx none n sched ev result)) (e, g) =
              count r1 (e, g) +
              groupHits e g (phaseVisited parse xx n sched ev (inequalityOrder sched)))"
  unfolding Match_second_phase [OF ph]
  by (intro conjI impI)
     (simp add: inequalityPhase_below, simp add: inequalityPhase_reached,
      simp add: inequalityPhase_unoptimized)

lemma equalityPhase_input:
  assumes "\<forall>path x. parse path = Inr x \<longrightarrow> fieldString (x input) = fieldString (x input')"
  shows "equalityPhase parse xx none n input paths st = equalityPhase parse xx none n input' paths st"
proof (induction paths arbitrary: st)
  case Nil
  then show ?case by simp
next
  case (Cons path paths)
  obtain err c result where st: "st = (err, c, result)" by (cases st)
  have "equalityTask parse xx none n input path result =
        equalityTask parse xx none n input' path result"
    using assms by (cases "parse path") (simp_all add: equalityTask_def)
  then show ?case by (simp add: st Cons.IH)
qed

lemma inequalityPhase_input:
  assumes "\<forall>path x. parse path = Inr x \<longrightarrow> fieldString (x input) = fieldString (x input')"
  shows "inequalityPhase parse xx n sched input c paths st =
         inequalityPhase parse xx n sched input' c paths st"
proof (induction paths arbitrary: st)
  case Nil
  then show ?case by simp
next
  case (Cons path paths)
  obtain err result where st: "st = (err, result)" by (cases st)
  have "inequalityTask parse xx n (valuesOrder sched path) input c path result =
        inequalityTask parse xx n (valuesOrder sched path) input' c path result"
    using assms by (cases "parse path") (simp_all add: inequalityTask_def)
  then show ?case by (simp add: st Cons.IH)
qed

lemma Match_input:
  assumes "\<forall>path x. parse path = Inr x \<longrightarrow> fieldString (x input) = fieldString (x input')"
  shows "Match parse xx none n sched input result = Match parse xx none n sched input' result"
  by (simp add: Match_def equalityPhase_input [OF assms] inequalityPhase_input [OF assms]
      split: prod.splits option.splits)

lemma Match_missing_as_empty:
  assumes "\<forall>path x. parse path = Inr x \<longrightarrow>
             x input' = x input \<or>
             ((x input = [] \<or> (\<exists>v vs. x input = v # vs \<and> (\<forall>s. v \<noteq> String s))) \<and>
              x input' = [String ''''])"
  shows "Match parse xx none n sched input result = Match parse xx none n sched input' result"
proof (rule Match_input, intro allI impI)
  fix path x
  assume "parse path = Inr x"
  then have "x input' = x input \<or>
             ((x input = [] \<or> (\<exists>v vs. x input = v # vs \<and> (\<forall>s. v \<noteq> String s))) \<and>
              x input' = [String ''''])"
    using assms by blast
  then show "fieldString (x input) = fieldString (x input')"
  proof
    assume "x input' = x input"
    then show ?thesis by simp
  next
    assume a: "(x input = [] \<or> (\<exists>v vs. x input = v # vs \<and> (\<forall>s. v \<noteq> String s))) \<and>
              x input' = [String '''']"
    then have "fieldString (x input) = ''''"
      by (intro fieldString_default) simp
    moreover have "fieldString (x input') = ''''"
      using a by (simp add: fieldString_def)
    ultimately show ?thesis by simp
  qed
qed

section \<open>Evaluation on concrete engines\<close>

lemma hash_lengthSum64: "length s < 36 \<Longrightarrow> hash lengthSum64 s = [digit36 (length s)]"
  by (simp add: hash_def lengthSum64_def FormatUint36.simps unat_of_nat)

lemmas eval_simps =
  engine_def run_def step_def Add_def Remove_def mkPart_def ToStored_def EqualsStored_def
  newStringEqualityMatcher_def LiteralAsString_def bucket_def Let_def hash_lengthSum64 digit36_def

lemmas match_simps =
  Match_def equalityTask_def inequalityTask_def equalitySearch_def inequalitySearch_def
  fieldPath_def plainName_def fieldString_def scheduleOf_def eventOf_def MatchResult_Add_def
  GroupMatches_def

section \<open>Equality matching\<close>

text \<open>
  C1. Equality matching is exact up to hashing. Registering an equality predicate \<open>p\<close>
  changes an equality search in one way only: when the hash of the searched value is the
  hash of the literal of \<open>p\<close> and the stored identifier of \<open>p\<close> is nil or the searched
  path, one more hit is recorded, for the pair (EvaluableID, GroupID) of \<open>p\<close>; otherwise
  the search is what it was without \<open>p\<close>. In the first phase of \<open>Match\<close>, under every
  order of the tasks, the accumulator gains one hit for that pair for each path on which
  the condition holds and nothing else, and the result of \<open>Match\<close> holds these hits.
  When the schedule fits the engine and the stored form keeps the identifier of the
  predicate, that is one hit if the hash of the event's value at the path of \<open>p\<close> is
  the hash of the literal, and none otherwise. When the condition holds on no path of the
  schedule, \<open>Match\<close> returns what it returns without \<open>p\<close>: the predicate is not
  reported. For every engine, the hits of an equality search are the parts of the bucket
  of the hashed value whose identifier is nil or the searched path, and the hits of the
  first phase are those of its tasks.
\<close>

theorem equality_matching_exact:
  assumes "Operator (Predicate p) = Equals"
  shows "equalitySearch xx none (snd (Add xx toStored n p)) variable input result =
           (let (opt, r) = equalitySearch xx none n variable input result
            in if hash xx input = hash xx (LiteralAsString (Predicate p)) \<and>
                  (Ident (toStored p) = None \<or> Ident (toStored p) = Some variable)
               then (opt \<or> Flag (GroupID (toStored p)) \<noteq> none,
                     MatchResult_Add r (EvaluableID (toStored p)) (GroupID (toStored p)))
               else (opt, r)) \<and>
         snd (snd (equalityPhase parse xx none (snd (Add xx toStored n p)) ev paths st)) =
           snd (snd (equalityPhase parse xx none n ev paths st)) +
           replicate_mset
             (length (filter (reports parse xx ev (LiteralAsString (Predicate p)) (toStored p)) paths))
             (pairOf (toStored p)) \<and>
         count result (pairOf (toStored p)) +
           length (filter (reports parse xx ev (LiteralAsString (Predicate p)) (toStored p))
                     (varsOrder sched))
           \<le> count (snd (Match parse xx none (snd (Add xx toStored n p)) sched ev result))
                (pairOf (toStored p)) \<and>
         (validSchedule (snd (Add xx toStored n p)) sched \<and>
          Ident (toStored p) = Some (Predicate.Ident (Predicate p)) \<longrightarrow>
            length (filter (reports parse xx ev (LiteralAsString (Predicate p)) (toStored p))
                      (varsOrder sched)) =
              (if reports parse xx ev (LiteralAsString (Predicate p)) (toStored p)
                    (Predicate.Ident (Predicate p))
               then 1 else 0)) \<and>
         ((\<forall>path\<in>set (varsOrder sched).
             \<not> reports parse xx ev (LiteralAsString (Predicate p)) (toStored p) path) \<longrightarrow>
            Match parse xx none (snd (Add xx toStored n p)) sched ev result =
            Match parse xx none n sched ev result) \<and>
         snd (equalitySearch xx none n variable input result) =
           result + mset (map pairOf (filter (\<lambda>s. Ident s = None \<or> Ident s = Some variable)
                      (bucket (equality n) (hash xx input)))) \<and>
         snd (snd (equalityPhase parse xx none n ev paths st)) =
           snd (snd st) + (\<Sum>path\<leftarrow>paths. taskHits parse xx n ev path)"
proof -
  let ?n = "snd (Add xx toStored n p)"
  have m: "count result (pairOf (toStored p)) +
           length (filter (reports parse xx ev (LiteralAsString (Predicate p)) (toStored p))
                     (varsOrder sched))
      \<le> count (snd (Match parse xx none ?n sched ev result)) (pairOf (toStored p))"
    by (rule Match_Add_reported [OF assms])
  have s: "equalitySearch xx none ?n variable input result =
           (let (opt, r) = equalitySearch xx none n variable input result
            in if hash xx input = hash xx (LiteralAsString (Predicate p)) \<and>
                  (Ident (toStored p) = None \<or> Ident (toStored p) = Some variable)
               then (opt \<or> Flag (GroupID (toStored p)) \<noteq> none,
                     MatchResult_Add r (EvaluableID (toStored p)) (GroupID (toStored p)))
               else (opt, r))"
    using equalitySearch_Add [OF assms, of xx none toStored n variable input result]
    by (simp add: Let_def)
  have v: "validSchedule ?n sched \<and>
          Ident (toStored p) = Some (Predicate.Ident (Predicate p)) \<longrightarrow>
            length (filter (reports parse xx ev (LiteralAsString (Predicate p)) (toStored p))
                      (varsOrder sched)) =
              (if reports parse xx ev (LiteralAsString (Predicate p)) (toStored p)
                    (Predicate.Ident (Predicate p))
               then 1 else 0)"
    by (intro impI, elim conjE) (rule reports_valid_schedule [OF assms])
  have w: "(\<forall>path\<in>set (varsOrder sched).
             \<not> reports parse xx ev (LiteralAsString (Predicate p)) (toStored p) path) \<longrightarrow>
            Match parse xx none ?n sched ev result = Match parse xx none n sched ev result"
    by (intro impI) (rule Match_Add_noreport [OF assms])
  show ?thesis
    by (intro conjI)
       (rule s, rule equalityPhase_Add [OF assms], rule m, rule v, rule w,
        rule equalitySearch_result, rule equalityPhase_result)
qed

text \<open>
  The predicate \<open>status == "active"\<close> of expression 5, searched with the values
  \<open>"active"\<close> and \<open>"inactive"\<close>, and matched against the events \<open>{status: "active"}\<close>
  and \<open>{status: "inactive"}\<close>.
\<close>

theorem equality_matching_exact_witness:
  "Operator (Predicate (mkPart Equals ''status'' ''active'' 5 0)) = Equals \<and>
   equalitySearch lengthSum64 0 (engine [OpAdd (mkPart Equals ''status'' ''active'' 5 0)])
     ''status'' ''active'' {#} = (False, {#(5, \<lparr>Serial = 5, Flag = 0\<rparr>)#}) \<and>
   equalitySearch lengthSum64 0 (engine [OpAdd (mkPart Equals ''status'' ''active'' 5 0)])
     ''status'' ''inactive'' {#} = (False, {#}) \<and>
   1 \<le> count (snd (Match fieldPath lengthSum64 0
                    (engine [OpAdd (mkPart Equals ''status'' ''active'' 5 0)])
                    (scheduleOf [''status''] [] [])
                    (eventOf [(''status'', String ''active'')]) {#}))
           (5, \<lparr>Serial = 5, Flag = 0\<rparr>) \<and>
   Match fieldPath lengthSum64 0 (engine [OpAdd (mkPart Equals ''status'' ''active'' 5 0)])
     (scheduleOf [''status''] [] []) (eventOf [(''status'', String ''inactive'')]) {#} =
     (None, {#})"
proof -
  have h: "Operator (Predicate (mkPart Equals ''status'' ''active'' 5 0)) = Equals"
    by (simp add: mkPart_def)
  have r: "reports fieldPath lengthSum64 (eventOf [(''status'', String ''active'')])
             ''active'' (ToStored (mkPart Equals ''status'' ''active'' 5 0)) ''status''"
    by (simp add: reports_def eval_simps match_simps)
  have e: "engine [OpAdd (mkPart Equals ''status'' ''active'' 5 0)] =
           snd (Add lengthSum64 ToStored (newStringEqualityMatcher 0)
                  (mkPart Equals ''status'' ''active'' 5 0))"
    by (simp add: engine_def run_def step_def)
  have lit: "LiteralAsString (Predicate (mkPart Equals ''status'' ''active'' 5 0)) = ''active''"
    by (simp add: LiteralAsString_def mkPart_def)
  have pair: "pairOf (ToStored (mkPart Equals ''status'' ''active'' 5 0)) =
              (5, \<lparr>Serial = 5, Flag = 0\<rparr>)"
    by (simp add: pairOf_def ToStored_def mkPart_def)
  have nr: "\<forall>path\<in>set (varsOrder (scheduleOf [''status''] [] [])).
              \<not> reports fieldPath lengthSum64 (eventOf [(''status'', String ''inactive'')])
                  (LiteralAsString (Predicate (mkPart Equals ''status'' ''active'' 5 0)))
                  (ToStored (mkPart Equals ''status'' ''active'' 5 0)) path"
    by (simp add: reports_def eval_simps match_simps)
  have "Match fieldPath lengthSum64 0 (engine [OpAdd (mkPart Equals ''status'' ''active'' 5 0)])
          (scheduleOf [''status''] [] []) (eventOf [(''status'', String ''inactive'')]) {#} =
        Match fieldPath lengthSum64 0 (newStringEqualityMatcher 0)
          (scheduleOf [''status''] [] []) (eventOf [(''status'', String ''inactive'')]) {#}"
    unfolding e
    by (rule equality_matching_exact [OF h, where xx = lengthSum64 and toStored = ToStored
          and parse = fieldPath and ev = "eventOf [(''status'', String ''inactive'')]"
          and sched = "scheduleOf [''status''] [] []" and none = 0
          and n = "newStringEqualityMatcher 0" and result = "{#}",
          THEN conjunct2, THEN conjunct2, THEN conjunct2, THEN conjunct2, THEN conjunct1,
          THEN mp, OF nr])
  also have "\<dots> = (None, {#})"
    by (simp add: eval_simps match_simps)
  finally have neg:
    "Match fieldPath lengthSum64 0 (engine [OpAdd (mkPart Equals ''status'' ''active'' 5 0)])
       (scheduleOf [''status''] [] []) (eventOf [(''status'', String ''inactive'')]) {#} =
     (None, {#})" .
  have "1 \<le> count (snd (Match fieldPath lengthSum64 0
                    (engine [OpAdd (mkPart Equals ''status'' ''active'' 5 0)])
                    (scheduleOf [''status''] [] [])
                    (eventOf [(''status'', String ''active'')]) {#}))
           (5, \<lparr>Serial = 5, Flag = 0\<rparr>)"
    using equality_matching_exact [OF h, where xx = lengthSum64 and toStored = ToStored
        and parse = fieldPath and ev = "eventOf [(''status'', String ''active'')]"
        and sched = "scheduleOf [''status''] [] []" and none = 0
        and n = "newStringEqualityMatcher 0" and result = "{#}" and variable = "[]"
        and input = "[]" and paths = "[]" and st = "(None, 0, {#})",
        THEN conjunct2, THEN conjunct2, THEN conjunct1] r
    by (simp add: e lit pair scheduleOf_def)
  moreover have
    "equalitySearch lengthSum64 0 (engine [OpAdd (mkPart Equals ''status'' ''active'' 5 0)])
       ''status'' ''active'' {#} = (False, {#(5, \<lparr>Serial = 5, Flag = 0\<rparr>)#})"
    "equalitySearch lengthSum64 0 (engine [OpAdd (mkPart Equals ''status'' ''active'' 5 0)])
       ''status'' ''inactive'' {#} = (False, {#})"
    by (simp_all add: eval_simps match_simps)
  ultimately show ?thesis using h neg by simp
qed


section \<open>Search\<close>

text \<open>
  C3. The documentation of \<open>Search\<close> says that it returns all parts that match the given
  input, ignoring the variable name entirely. \<open>Search\<close> passes its variable name to
  \<open>equalitySearch\<close>, which passes over every part that declares another identifier. With
  the predicate \<open>a == "x"\<close> registered, searching the value \<open>"x"\<close> under the name
  \<open>"b"\<close> records nothing, and under the name \<open>"a"\<close> records the part.
\<close>

theorem Search_skips_other_identifier:
  "Search lengthSum64 0 (engine [OpAdd (mkPart Equals ''a'' ''x'' 5 0)]) ''b'' (String ''x'') {#}
     = {#} \<and>
   Search lengthSum64 0 (engine [OpAdd (mkPart Equals ''a'' ''x'' 5 0)]) ''a'' (String ''x'') {#}
     = {#(5, \<lparr>Serial = 5, Flag = 0\<rparr>)#}"
  by (simp add: eval_simps Search_def match_simps)

section \<open>Inequality matching\<close>

text \<open>
  C4. An inequality predicate whose literal has the hash of the event's value is never
  reported. Registering an inequality predicate \<open>p\<close> on a path whose value in the event
  has the hash of the literal of \<open>p\<close> leaves the result of \<open>Match\<close> as it is without
  \<open>p\<close>, under every schedule; the same holds for \<open>inequalitySearch\<close>; and what the
  bucket of the hashed input holds has no effect on an inequality search at all.
\<close>

theorem inequality_skips_equal_hash:
  "(Operator (Predicate p) = NotEquals \<and> parse (Predicate.Ident (Predicate p)) = Inr x \<and>
    hash xx (fieldString (x ev)) = hash xx (LiteralAsString (Predicate p)) \<longrightarrow>
      Match parse xx none (snd (Add xx toStored n p)) sched ev result =
      Match parse xx none n sched ev result) \<and>
   (Operator (Predicate p) = NotEquals \<and>
    hash xx input = hash xx (LiteralAsString (Predicate p)) \<longrightarrow>
      inequalitySearch xx (snd (Add xx toStored n p)) order (Predicate.Ident (Predicate p)) input
        opt result =
      inequalitySearch xx n order (Predicate.Ident (Predicate p)) input opt result) \<and>
   ((\<forall>v. v \<noteq> hash xx input \<longrightarrow> inequalityAt n' variable v = inequalityAt n variable v) \<longrightarrow>
      inequalitySearch xx n' order variable input opt result =
      inequalitySearch xx n order variable input opt result)"
proof -
  have "inequalitySearch xx n' order variable input opt result =
        inequalitySearch xx n order variable input opt result"
    if "\<forall>v. v \<noteq> hash xx input \<longrightarrow> inequalityAt n' variable v = inequalityAt n variable v"
    unfolding inequalitySearch_values_eq using that by (rule inequalitySearch_values_cong)
  then show ?thesis
    using Match_Add_NotEquals [of p parse x xx ev none toStored n sched result]
      inequalitySearch_Add [of p xx input "Predicate.Ident (Predicate p)" toStored n order opt result]
    by blast
qed

text \<open>
  The predicate \<open>status != "inactive"\<close> of expression 2 and the event
  \<open>{status: "inactive"}\<close>: nothing is reported.
\<close>

theorem inequality_skips_equal_hash_witness:
  "Operator (Predicate (mkPart NotEquals ''status'' ''inactive'' 2 0)) = NotEquals \<and>
   hash lengthSum64 ''inactive'' =
     hash lengthSum64 (LiteralAsString (Predicate (mkPart NotEquals ''status'' ''inactive'' 2 0))) \<and>
   Match fieldPath lengthSum64 0 (engine [OpAdd (mkPart NotEquals ''status'' ''inactive'' 2 0)])
     (scheduleOf [] [''status''] [''8'']) (eventOf [(''status'', String ''inactive'')]) {#} =
     (None, {#}) \<and>
   inequalitySearch lengthSum64 (engine [OpAdd (mkPart NotEquals ''status'' ''inactive'' 2 0)])
     [''8''] ''status'' ''inactive'' False {#} = {#}"
  using inequality_skips_equal_hash
    [where p = "mkPart NotEquals ''status'' ''inactive'' 2 0" and parse = fieldPath
      and x = "\<lambda>input. case input ''status'' of None \<Rightarrow> [] | Some v \<Rightarrow> [v]"
      and xx = lengthSum64 and ev = "eventOf [(''status'', String ''inactive'')]" and none = 0
      and toStored = ToStored and n = "newStringEqualityMatcher 0"
      and sched = "scheduleOf [] [''status''] [''8'']" and result = "{#}"
      and input = "''inactive''" and order = "[''8'']" and opt = False]
  by (simp add: eval_simps match_simps)


text \<open>
  C2. The claim: for a group whose flag requires \<open>K\<close> matches, an inequality hit is
  suppressed whenever the accumulator's count for the pair is below \<open>K\<close>, and reported
  whenever the count is at least \<open>K\<close>. The threshold is applied only when the first
  phase raised the optimization signal. With the single predicate
  \<open>status != "inactive"\<close> in a group of flag 1 and the event \<open>{status: "active"}\<close>,
  no equality part matches, the signal is not raised, and the hit is reported although
  the count, 0, is below the flag.
\<close>

theorem inequality_threshold_counterexample:
  "GroupMatches {#} 2 \<lparr>Serial = 2, Flag = 1\<rparr> < Flag \<lparr>Serial = 2, Flag = 1\<rparr> \<and>
   Match fieldPath lengthSum64 0 (engine [OpAdd (mkPart NotEquals ''status'' ''inactive'' 2 1)])
     (scheduleOf [] [''status''] [''8'']) (eventOf [(''status'', String ''active'')]) {#} =
     (None, {#(2, \<lparr>Serial = 2, Flag = 1\<rparr>)#})"
  by (simp add: eval_simps match_simps)

text \<open>
  C2, amended. The optimization signal is the counter that the first phase of \<open>Match\<close>
  leaves: with fewer than \<open>2^31\<close> paths in \<open>vars\<close> it is raised exactly when the task
  of some path found, in the bucket of the hashed value, a part it does not pass over
  whose group has a flag other than \<open>OptimizeNone\<close>. The second phase of \<open>Match\<close> runs
  every inequality search with that signal. With the signal raised, when the inequality
  search reaches a part whose flag and whose current count lie in the range of \<open>int8\<close>,
  it passes over the part if the count is below the flag and records it otherwise.
  Counted for a pair \<open>(e, g)\<close>, in one search and in the second phase as a whole: when
  the count is below the flag, no hit is recorded for the pair; when the count is at least
  the flag and stays in the range of \<open>int8\<close> at every part of the pair, every part of
  the pair in a bucket other than that of the hashed value is recorded. Without the signal
  every such part is recorded, whatever the flag. (Outside the range of \<open>int8\<close> the
  comparison is made on the truncated values; the statement says nothing about it.)
\<close>

theorem inequalitySearch_threshold:
  "(GroupMatches result e g < Flag g \<and> Flag g \<le> 127 \<longrightarrow>
      GroupMatches (inequalitySearch xx n order variable input True result) e g =
        GroupMatches result e g) \<and>
   (Flag g \<le> GroupMatches result e g \<and> - 128 \<le> Flag g \<and>
    GroupMatches result e g +
      int (groupHits e g (visited (hash xx input) (inequalityAt n variable) order)) \<le> 128 \<longrightarrow>
      GroupMatches (inequalitySearch xx n order variable input True result) e g =
        GroupMatches result e g +
        int (groupHits e g (visited (hash xx input) (inequalityAt n variable) order))) \<and>
   GroupMatches (inequalitySearch xx n order variable input False result) e g =
     GroupMatches result e g +
     int (groupHits e g (visited (hash xx input) (inequalityAt n variable) order)) \<and>
   (let cur = inequalitySearch_exprs b1
                (inequalitySearch_values (hash xx input) True (inequalityAt n variable) ks1 result)
    in order = ks1 @ k # ks2 \<and> inequalityAt n variable k = Some (b1 @ s # b2) \<and>
       k \<noteq> hash xx input \<and> - 128 \<le> Flag (GroupID s) \<and> Flag (GroupID s) \<le> 127 \<and>
       GroupMatches cur (EvaluableID s) (GroupID s) \<le> 127 \<longrightarrow>
         inequalitySearch xx n order variable input True result =
           inequalitySearch_values (hash xx input) True (inequalityAt n variable) ks2
             (inequalitySearch_exprs b2
                (if GroupMatches cur (EvaluableID s) (GroupID s) < Flag (GroupID s)
                 then cur else add_mset (pairOf s) cur))) \<and>
   (equalityPhase parse xx none n ev (varsOrder sched) (None, 0, result) = (Some err, c, r1) \<longrightarrow>
      Match parse xx none n sched ev result = (Some err, r1)) \<and>
   (length (varsOrder sched) < 2 ^ 31 \<and>
    equalityPhase parse xx none n ev (varsOrder sched) (None, 0, result) = (None, c, r1) \<longrightarrow>
      (0 < sint c \<longleftrightarrow> (\<exists>path\<in>set (varsOrder sched). signals parse xx none n ev path)) \<and>
      Match parse xx none n sched ev result =
        inequalityPhase parse xx n sched ev c (inequalityOrder sched) (None, r1) \<and>
      (0 < sint c \<and> GroupMatches r1 e g < Flag g \<and> Flag g \<le> 127 \<longrightarrow>
         GroupMatches (snd (Match parse xx none n sched ev result)) e g = GroupMatches r1 e g) \<and>
      (0 < sint c \<and> Flag g \<le> GroupMatches r1 e g \<and> - 128 \<le> Flag g \<and>
       GroupMatches r1 e g +
         int (groupHits e g (phaseVisited parse xx n sched ev (inequalityOrder sched))) \<le> 128 \<longrightarrow>
         GroupMatches (snd (Match parse xx none n sched ev result)) e g =
           GroupMatches r1 e g +
           int (groupHits e g (phaseVisited parse xx n sched ev (inequalityOrder sched)))) \<and>
      (\<not> 0 < sint c \<longrightarrow>
         GroupMatches (snd (Match parse xx none n sched ev result)) e g =
           GroupMatches r1 e g +
           int (groupHits e g (phaseVisited parse xx n sched ev (inequalityOrder sched)))))"
proof -
  have a: "(GroupMatches result e g < Flag g \<and> Flag g \<le> 127 \<longrightarrow>
      GroupMatches (inequalitySearch xx n order variable input True result) e g =
        GroupMatches result e g) \<and>
   (Flag g \<le> GroupMatches result e g \<and> - 128 \<le> Flag g \<and>
    GroupMatches result e g +
      int (groupHits e g (visited (hash xx input) (inequalityAt n variable) order)) \<le> 128 \<longrightarrow>
      GroupMatches (inequalitySearch xx n order variable input True result) e g =
        GroupMatches result e g +
        int (groupHits e g (visited (hash xx input) (inequalityAt n variable) order))) \<and>
   GroupMatches (inequalitySearch xx n order variable input False result) e g =
     GroupMatches result e g +
     int (groupHits e g (visited (hash xx input) (inequalityAt n variable) order))"
    using inequalitySearch_counts [of result e g xx n order variable input]
    by (simp add: GroupMatches_def)
  have b: "let cur = inequalitySearch_exprs b1
                (inequalitySearch_values (hash xx input) True (inequalityAt n variable) ks1 result)
    in order = ks1 @ k # ks2 \<and> inequalityAt n variable k = Some (b1 @ s # b2) \<and>
       k \<noteq> hash xx input \<and> - 128 \<le> Flag (GroupID s) \<and> Flag (GroupID s) \<le> 127 \<and>
       GroupMatches cur (EvaluableID s) (GroupID s) \<le> 127 \<longrightarrow>
         inequalitySearch xx n order variable input True result =
           inequalitySearch_values (hash xx input) True (inequalityAt n variable) ks2
             (inequalitySearch_exprs b2
                (if GroupMatches cur (EvaluableID s) (GroupID s) < Flag (GroupID s)
                 then cur else add_mset (pairOf s) cur))"
    unfolding Let_def
    by (intro impI, elim conjE) (rule inequalitySearch_hit [OF _ _ _ refl])
  have c: "equalityPhase parse xx none n ev (varsOrder sched) (None, 0, result) = (Some err, c, r1) \<longrightarrow>
      Match parse xx none n sched ev result = (Some err, r1)"
    by (simp add: Match_def)
  have d: "(0 < sint c \<longleftrightarrow> (\<exists>path\<in>set (varsOrder sched). signals parse xx none n ev path)) \<and>
      Match parse xx none n sched ev result =
        inequalityPhase parse xx n sched ev c (inequalityOrder sched) (None, r1) \<and>
      (0 < sint c \<and> GroupMatches r1 e g < Flag g \<and> Flag g \<le> 127 \<longrightarrow>
         GroupMatches (snd (Match parse xx none n sched ev result)) e g = GroupMatches r1 e g) \<and>
      (0 < sint c \<and> Flag g \<le> GroupMatches r1 e g \<and> - 128 \<le> Flag g \<and>
       GroupMatches r1 e g +
         int (groupHits e g (phaseVisited parse xx n sched ev (inequalityOrder sched))) \<le> 128 \<longrightarrow>
         GroupMatches (snd (Match parse xx none n sched ev result)) e g =
           GroupMatches r1 e g +
           int (groupHits e g (phaseVisited parse xx n sched ev (inequalityOrder sched)))) \<and>
      (\<not> 0 < sint c \<longrightarrow>
         GroupMatches (snd (Match parse xx none n sched ev result)) e g =
           GroupMatches r1 e g +
           int (groupHits e g (phaseVisited parse xx n sched ev (inequalityOrder sched))))"
    if len: "length (varsOrder sched) < 2 ^ 31"
      and ph: "equalityPhase parse xx none n ev (varsOrder sched) (None, 0, result) = (None, c, r1)"
    using signal_raised [OF len ph] Match_second_phase [OF ph] Match_counts [OF ph, of e g]
    by (simp add: GroupMatches_def)
  from d have d': "length (varsOrder sched) < 2 ^ 31 \<and>
    equalityPhase parse xx none n ev (varsOrder sched) (None, 0, result) = (None, c, r1) \<longrightarrow>
      (0 < sint c \<longleftrightarrow> (\<exists>path\<in>set (varsOrder sched). signals parse xx none n ev path)) \<and>
      Match parse xx none n sched ev result =
        inequalityPhase parse xx n sched ev c (inequalityOrder sched) (None, r1) \<and>
      (0 < sint c \<and> GroupMatches r1 e g < Flag g \<and> Flag g \<le> 127 \<longrightarrow>
         GroupMatches (snd (Match parse xx none n sched ev result)) e g = GroupMatches r1 e g) \<and>
      (0 < sint c \<and> Flag g \<le> GroupMatches r1 e g \<and> - 128 \<le> Flag g \<and>
       GroupMatches r1 e g +
         int (groupHits e g (phaseVisited parse xx n sched ev (inequalityOrder sched))) \<le> 128 \<longrightarrow>
         GroupMatches (snd (Match parse xx none n sched ev result)) e g =
           GroupMatches r1 e g +
           int (groupHits e g (phaseVisited parse xx n sched ev (inequalityOrder sched)))) \<and>
      (\<not> 0 < sint c \<longrightarrow>
         GroupMatches (snd (Match parse xx none n sched ev result)) e g =
           GroupMatches r1 e g +
           int (groupHits e g (phaseVisited parse xx n sched ev (inequalityOrder sched))))"
    by (intro impI) (elim conjE)
  show ?thesis
    using a by (intro conjI) (simp, simp, simp, rule b, rule c, rule d')
qed

text \<open>
  The predicates \<open>status == "active"\<close> and \<open>kind != "x"\<close> of one group of
  expression 5, and the event \<open>{status: "active", kind: "yy"}\<close>. The first phase
  records one hit and raises the signal. When the flag of the group is 2, \<open>Match\<close> passes
  over the inequality hit; when it is 1, \<open>Match\<close> records it. At the upper end of the
  range: with flag 1 and 127 hits counted for the group, the search with the signal raised
  records the inequality hit, the 128th.
\<close>

theorem inequalitySearch_threshold_witness:
  "equalityPhase fieldPath lengthSum64 0
     (engine [OpAdd (mkPart Equals ''status'' ''active'' 5 2),
              OpAdd (mkPart NotEquals ''kind'' ''x'' 5 2)])
     (eventOf [(''status'', String ''active''), (''kind'', String ''yy'')])
     (varsOrder (scheduleOf [''status''] [''kind''] [''1''])) (None, 0, {#}) =
     (None, 1, {#(5, \<lparr>Serial = 5, Flag = 2\<rparr>)#}) \<and>
   GroupMatches {#(5, \<lparr>Serial = 5, Flag = 2\<rparr>)#} 5 \<lparr>Serial = 5, Flag = 2\<rparr>
     < Flag \<lparr>Serial = 5, Flag = 2\<rparr> \<and>
   GroupMatches
     (snd (Match fieldPath lengthSum64 0
             (engine [OpAdd (mkPart Equals ''status'' ''active'' 5 2),
                      OpAdd (mkPart NotEquals ''kind'' ''x'' 5 2)])
             (scheduleOf [''status''] [''kind''] [''1''])
             (eventOf [(''status'', String ''active''), (''kind'', String ''yy'')]) {#}))
     5 \<lparr>Serial = 5, Flag = 2\<rparr> = 1 \<and>
   equalityPhase fieldPath lengthSum64 0
     (engine [OpAdd (mkPart Equals ''status'' ''active'' 5 1),
              OpAdd (mkPart NotEquals ''kind'' ''x'' 5 1)])
     (eventOf [(''status'', String ''active''), (''kind'', String ''yy'')])
     (varsOrder (scheduleOf [''status''] [''kind''] [''1''])) (None, 0, {#}) =
     (None, 1, {#(5, \<lparr>Serial = 5, Flag = 1\<rparr>)#}) \<and>
   Flag \<lparr>Serial = 5, Flag = 1\<rparr>
     \<le> GroupMatches {#(5, \<lparr>Serial = 5, Flag = 1\<rparr>)#} 5 \<lparr>Serial = 5, Flag = 1\<rparr> \<and>
   GroupMatches
     (snd (Match fieldPath lengthSum64 0
             (engine [OpAdd (mkPart Equals ''status'' ''active'' 5 1),
                      OpAdd (mkPart NotEquals ''kind'' ''x'' 5 1)])
             (scheduleOf [''status''] [''kind''] [''1''])
             (eventOf [(''status'', String ''active''), (''kind'', String ''yy'')]) {#}))
     5 \<lparr>Serial = 5, Flag = 1\<rparr> = 2 \<and>
   GroupMatches
     (inequalitySearch lengthSum64 (engine [OpAdd (mkPart NotEquals ''kind'' ''x'' 5 1)])
        [''1''] ''kind'' ''yy'' True (replicate_mset 127 (5, \<lparr>Serial = 5, Flag = 1\<rparr>)))
     5 \<lparr>Serial = 5, Flag = 1\<rparr> = 128"
proof -
  let ?ev = "eventOf [(''status'', String ''active''), (''kind'', String ''yy'')]"
  let ?sched = "scheduleOf [''status''] [''kind''] [''1'']"
  let ?n2 = "engine [OpAdd (mkPart Equals ''status'' ''active'' 5 2),
                     OpAdd (mkPart NotEquals ''kind'' ''x'' 5 2)]"
  let ?n1 = "engine [OpAdd (mkPart Equals ''status'' ''active'' 5 1),
                     OpAdd (mkPart NotEquals ''kind'' ''x'' 5 1)]"
  have len: "length (varsOrder ?sched) < 2 ^ 31"
    by (simp add: scheduleOf_def)
  have ph2: "equalityPhase fieldPath lengthSum64 0 ?n2 ?ev (varsOrder ?sched) (None, 0, {#}) =
             (None, 1, {#(5, \<lparr>Serial = 5, Flag = 2\<rparr>)#})"
    by (simp add: eval_simps match_simps)
  have ph1: "equalityPhase fieldPath lengthSum64 0 ?n1 ?ev (varsOrder ?sched) (None, 0, {#}) =
             (None, 1, {#(5, \<lparr>Serial = 5, Flag = 1\<rparr>)#})"
    by (simp add: eval_simps match_simps)
  have c2: "GroupMatches {#(5, \<lparr>Serial = 5, Flag = 2\<rparr>)#} 5 \<lparr>Serial = 5, Flag = 2\<rparr>
              < Flag \<lparr>Serial = 5, Flag = 2\<rparr>"
    by (simp add: GroupMatches_def)
  have c1: "Flag \<lparr>Serial = 5, Flag = 1\<rparr>
              \<le> GroupMatches {#(5, \<lparr>Serial = 5, Flag = 1\<rparr>)#} 5 \<lparr>Serial = 5, Flag = 1\<rparr>"
    by (simp add: GroupMatches_def)
  have v: "phaseVisited fieldPath lengthSum64 ?n1 ?sched ?ev (inequalityOrder ?sched) =
             [ToStored (mkPart NotEquals ''kind'' ''x'' 5 1)]"
    by (simp add: phaseVisited_def visited_def inequalityAt_def eval_simps match_simps)
  have g: "groupHits 5 \<lparr>Serial = 5, Flag = 1\<rparr> [ToStored (mkPart NotEquals ''kind'' ''x'' 5 1)] = 1"
    by (simp add: groupHits_def ToStored_def mkPart_def)
  have m2: "GroupMatches (snd (Match fieldPath lengthSum64 0 ?n2 ?sched ?ev {#}))
              5 \<lparr>Serial = 5, Flag = 2\<rparr> = 1"
    using inequalitySearch_threshold
      [where parse = fieldPath and xx = lengthSum64 and none = 0 and n = ?n2 and ev = ?ev
         and sched = ?sched and result = "{#}" and c = 1
         and ?r1.0 = "{#(5, \<lparr>Serial = 5, Flag = 2\<rparr>)#}" and e = 5
         and g = "\<lparr>Serial = 5, Flag = 2\<rparr>",
       THEN conjunct2, THEN conjunct2, THEN conjunct2, THEN conjunct2, THEN conjunct2,
       THEN mp, OF conjI [OF len ph2], THEN conjunct2, THEN conjunct2, THEN conjunct1]
      c2
    by (simp add: GroupMatches_def)
  have m1: "GroupMatches (snd (Match fieldPath lengthSum64 0 ?n1 ?sched ?ev {#}))
              5 \<lparr>Serial = 5, Flag = 1\<rparr> = 2"
    using inequalitySearch_threshold
      [where parse = fieldPath and xx = lengthSum64 and none = 0 and n = ?n1 and ev = ?ev
         and sched = ?sched and result = "{#}" and c = 1
         and ?r1.0 = "{#(5, \<lparr>Serial = 5, Flag = 1\<rparr>)#}" and e = 5
         and g = "\<lparr>Serial = 5, Flag = 1\<rparr>",
       THEN conjunct2, THEN conjunct2, THEN conjunct2, THEN conjunct2, THEN conjunct2,
       THEN mp, OF conjI [OF len ph1], THEN conjunct2, THEN conjunct2, THEN conjunct2,
       THEN conjunct1]
      c1
    by (simp add: GroupMatches_def v g)
  let ?n = "engine [OpAdd (mkPart NotEquals ''kind'' ''x'' 5 1)]"
  let ?g = "\<lparr>Serial = 5, Flag = 1\<rparr>"
  have w: "visited (hash lengthSum64 ''yy'') (inequalityAt ?n ''kind'') [''1''] =
             [ToStored (mkPart NotEquals ''kind'' ''x'' 5 1)]"
    by (simp add: visited_def inequalityAt_def eval_simps match_simps)
  have k: "GroupMatches (replicate_mset 127 (5, ?g)) 5 ?g = 127"
    by (simp add: GroupMatches_def)
  have h: "Flag ?g \<le> GroupMatches (replicate_mset 127 (5, ?g)) 5 ?g \<and> - 128 \<le> Flag ?g \<and>
           GroupMatches (replicate_mset 127 (5, ?g)) 5 ?g +
             int (groupHits 5 ?g
                    (visited (hash lengthSum64 ''yy'') (inequalityAt ?n ''kind'') [''1'']))
             \<le> 128"
    unfolding w g k by simp
  have b: "GroupMatches
             (inequalitySearch lengthSum64 ?n [''1''] ''kind'' ''yy'' True
                (replicate_mset 127 (5, ?g))) 5 ?g = 128"
    using inequalitySearch_threshold
      [where xx = lengthSum64 and n = ?n and order = "[''1'']" and variable = "''kind''"
         and input = "''yy''" and result = "replicate_mset 127 (5, ?g)" and e = 5 and g = ?g,
       THEN conjunct2, THEN conjunct1, THEN mp, OF h]
    unfolding w g k by simp
  show ?thesis
    by (intro conjI) (rule ph2, rule c2, rule m2, rule ph1, rule c1, rule m1, rule b)
qed

text \<open>
  C10. In both phases of \<open>Match\<close>, a path whose extraction yields nothing, or a first
  value that is not a string, is searched with the empty string: the task of the first
  phase is the equality search for \<open>""\<close>, so an equality predicate on that path whose
  literal has the hash of \<open>""\<close> is reported; the task of the second phase is the
  inequality search for \<open>""\<close>, so the bucket with the hash of \<open>""\<close> has no effect on it.
  For \<open>Match\<close> as a whole: the result of \<open>Match\<close> holds a hit for such an equality
  predicate on a path of the schedule; registering an inequality predicate on that path
  whose literal has the hash of \<open>""\<close> leaves the result of \<open>Match\<close> as it is without
  the predicate; and \<open>Match\<close> returns the same for two events that differ only in that
  one has the empty string where the other has nothing or a value that is not a string.
\<close>

theorem missing_field_is_empty_string:
  assumes "parse path = Inr x"
    and "x input = [] \<or> (\<exists>v vs. x input = v # vs \<and> (\<forall>s. v \<noteq> String s))"
  shows "equalityTask parse xx none n input path result =
           (None, equalitySearch xx none n path '''' result) \<and>
         inequalityTask parse xx n order input c path result =
           (None, inequalitySearch xx n order path '''' (0 < sint c) result) \<and>
         (Operator (Predicate p) = Equals \<and>
          hash xx (LiteralAsString (Predicate p)) = hash xx '''' \<and>
          (Ident (toStored p) = None \<or> Ident (toStored p) = Some path) \<longrightarrow>
            snd (snd (equalityTask parse xx none (snd (Add xx toStored n p)) input path result)) =
              add_mset (pairOf (toStored p))
                (snd (snd (equalityTask parse xx none n input path result)))) \<and>
         ((\<forall>v. v \<noteq> hash xx '''' \<longrightarrow> inequalityAt n' path v = inequalityAt n path v) \<longrightarrow>
            inequalityTask parse xx n' order input c path result =
            inequalityTask parse xx n order input c path result) \<and>
         (path \<in> set (varsOrder sched) \<and> Operator (Predicate p) = Equals \<and>
          hash xx (LiteralAsString (Predicate p)) = hash xx '''' \<and>
          (Ident (toStored p) = None \<or> Ident (toStored p) = Some path) \<longrightarrow>
            count result (pairOf (toStored p)) + 1
              \<le> count (snd (Match parse xx none (snd (Add xx toStored n p)) sched input result))
                   (pairOf (toStored p))) \<and>
         (Operator (Predicate p) = NotEquals \<and> Predicate.Ident (Predicate p) = path \<and>
          hash xx (LiteralAsString (Predicate p)) = hash xx '''' \<longrightarrow>
            Match parse xx none (snd (Add xx toStored n p)) sched input result =
            Match parse xx none n sched input result) \<and>
         ((\<forall>q y. parse q = Inr y \<longrightarrow>
              y input' = y input \<or>
              ((y input = [] \<or> (\<exists>v vs. y input = v # vs \<and> (\<forall>s. v \<noteq> String s))) \<and>
               y input' = [String ''''])) \<longrightarrow>
            Match parse xx none n sched input result = Match parse xx none n sched input' result)"
proof -
  have str: "fieldString (x input) = ''''"
    using assms(2) by (rule fieldString_default)
  have a: "equalityTask parse xx none n input path result =
             (None, equalitySearch xx none n path '''' result)"
    by (simp add: equalityTask_def assms(1) str split: prod.splits)
  have b: "inequalityTask parse xx m order input c path result =
             (None, inequalitySearch xx m order path '''' (0 < sint c) result)" for m
    by (simp add: inequalityTask_def assms(1) str)
  have c: "snd (snd (equalityTask parse xx none (snd (Add xx toStored n p)) input path result)) =
             add_mset (pairOf (toStored p))
               (snd (snd (equalityTask parse xx none n input path result)))"
    if "Operator (Predicate p) = Equals"
      and "hash xx (LiteralAsString (Predicate p)) = hash xx ''''"
      and "Ident (toStored p) = None \<or> Ident (toStored p) = Some path"
  proof -
    have "reports parse xx input (LiteralAsString (Predicate p)) (toStored p) path"
      using that assms(1) str by (simp add: reports_def)
    then show ?thesis
      by (simp add: equalityTask_result taskHits_Add [OF that(1)])
  qed
  have d: "inequalityTask parse xx n' order input c path result =
           inequalityTask parse xx n order input c path result"
    if "\<forall>v. v \<noteq> hash xx '''' \<longrightarrow> inequalityAt n' path v = inequalityAt n path v"
    unfolding b inequalitySearch_values_eq
    using that by (simp add: inequalitySearch_values_cong [of "hash xx ''''"])
  from c have c': "Operator (Predicate p) = Equals \<and>
          hash xx (LiteralAsString (Predicate p)) = hash xx '''' \<and>
          (Ident (toStored p) = None \<or> Ident (toStored p) = Some path) \<longrightarrow>
            snd (snd (equalityTask parse xx none (snd (Add xx toStored n p)) input path result)) =
              add_mset (pairOf (toStored p))
                (snd (snd (equalityTask parse xx none n input path result)))"
    by (intro impI) (elim conjE)
  from d have d': "(\<forall>v. v \<noteq> hash xx '''' \<longrightarrow> inequalityAt n' path v = inequalityAt n path v) \<longrightarrow>
            inequalityTask parse xx n' order input c path result =
            inequalityTask parse xx n order input c path result"
    by (intro impI)
  have e: "count result (pairOf (toStored p)) + 1
              \<le> count (snd (Match parse xx none (snd (Add xx toStored n p)) sched input result))
                   (pairOf (toStored p))"
    if "path \<in> set (varsOrder sched)" and "Operator (Predicate p) = Equals"
      and "hash xx (LiteralAsString (Predicate p)) = hash xx ''''"
      and "Ident (toStored p) = None \<or> Ident (toStored p) = Some path"
  proof -
    let ?P = "reports parse xx input (LiteralAsString (Predicate p)) (toStored p)"
    have "?P path"
      using that assms(1) str by (simp add: reports_def)
    then have "path \<in> set (filter ?P (varsOrder sched))"
      using that(1) by simp
    then have "0 < length (filter ?P (varsOrder sched))"
      by (rule length_pos_if_in_set)
    then have "count result (pairOf (toStored p)) + 1
                 \<le> count result (pairOf (toStored p)) + length (filter ?P (varsOrder sched))"
      by linarith
    also have "\<dots> \<le> count (snd (Match parse xx none (snd (Add xx toStored n p)) sched input
                                     result)) (pairOf (toStored p))"
      by (rule Match_Add_reported [OF that(2)])
    finally show ?thesis .
  qed
  from e have e': "path \<in> set (varsOrder sched) \<and> Operator (Predicate p) = Equals \<and>
          hash xx (LiteralAsString (Predicate p)) = hash xx '''' \<and>
          (Ident (toStored p) = None \<or> Ident (toStored p) = Some path) \<longrightarrow>
            count result (pairOf (toStored p)) + 1
              \<le> count (snd (Match parse xx none (snd (Add xx toStored n p)) sched input result))
                   (pairOf (toStored p))"
    by (intro impI) (elim conjE)
  have f: "Operator (Predicate p) = NotEquals \<and> Predicate.Ident (Predicate p) = path \<and>
          hash xx (LiteralAsString (Predicate p)) = hash xx '''' \<longrightarrow>
            Match parse xx none (snd (Add xx toStored n p)) sched input result =
            Match parse xx none n sched input result"
  proof (intro impI, elim conjE)
    assume op: "Operator (Predicate p) = NotEquals"
      and id: "Predicate.Ident (Predicate p) = path"
      and h: "hash xx (LiteralAsString (Predicate p)) = hash xx ''''"
    have px: "parse (Predicate.Ident (Predicate p)) = Inr x"
      using assms(1) id by simp
    have hx: "hash xx (fieldString (x input)) = hash xx (LiteralAsString (Predicate p))"
      using h str by simp
    show "Match parse xx none (snd (Add xx toStored n p)) sched input result =
          Match parse xx none n sched input result"
      by (rule Match_Add_NotEquals [where parse = parse and x = x and ev = input, OF op px hx])
  qed
  have g: "(\<forall>q y. parse q = Inr y \<longrightarrow>
              y input' = y input \<or>
              ((y input = [] \<or> (\<exists>v vs. y input = v # vs \<and> (\<forall>s. v \<noteq> String s))) \<and>
               y input' = [String ''''])) \<longrightarrow>
            Match parse xx none n sched input result = Match parse xx none n sched input' result"
    by (intro impI) (rule Match_missing_as_empty)
  show ?thesis
    by (intro conjI) (rule a, rule b, rule c', rule d', rule e', rule f, rule g)
qed

text \<open>
  The predicates \<open>name == ""\<close> of expression 6 and \<open>name != ""\<close> of expression 7, and
  the event \<open>{count: 3}\<close>: the path \<open>name\<close> yields nothing and the path \<open>count\<close> yields
  a number. The task of \<open>name\<close> reports the equality predicate, and \<open>Match\<close> reports the
  equality predicate and not the inequality predicate.
\<close>

theorem missing_field_is_empty_string_witness:
  "fieldPath ''count'' =
     Inr (\<lambda>input. case input ''count'' of None \<Rightarrow> [] | Some v \<Rightarrow> [v]) \<and>
   equalityTask fieldPath lengthSum64 0 (engine [OpAdd (mkPart Equals ''name'' '''' 6 0)])
     (eventOf [(''count'', Number 3)]) ''count'' {#} =
   (None, equalitySearch lengthSum64 0 (engine [OpAdd (mkPart Equals ''name'' '''' 6 0)])
            ''count'' '''' {#}) \<and>
   equalityTask fieldPath lengthSum64 0 (engine [OpAdd (mkPart Equals ''name'' '''' 6 0)])
     (eventOf [(''count'', Number 3)]) ''name'' {#} =
   (None, False, {#(6, \<lparr>Serial = 6, Flag = 0\<rparr>)#}) \<and>
   1 \<le> count (snd (Match fieldPath lengthSum64 0
                    (engine [OpAdd (mkPart NotEquals ''name'' '''' 7 0),
                             OpAdd (mkPart Equals ''name'' '''' 6 0)])
                    (scheduleOf [''name''] [''name''] [''0''])
                    (eventOf [(''count'', Number 3)]) {#}))
           (6, \<lparr>Serial = 6, Flag = 0\<rparr>) \<and>
   Match fieldPath lengthSum64 0
     (engine [OpAdd (mkPart NotEquals ''name'' '''' 7 0), OpAdd (mkPart Equals ''name'' '''' 6 0)])
     (scheduleOf [''name''] [''name''] [''0'']) (eventOf [(''count'', Number 3)]) {#} =
   (None, {#(6, \<lparr>Serial = 6, Flag = 0\<rparr>)#})"
proof -
  have h1: "fieldPath ''count'' =
              Inr (\<lambda>input. case input ''count'' of None \<Rightarrow> [] | Some v \<Rightarrow> [v])"
    by (simp add: fieldPath_def plainName_def)
  have h2: "(case eventOf [(''count'', Number 3)] ''count'' of None \<Rightarrow> [] | Some v \<Rightarrow> [v]) = [] \<or>
            (\<exists>v vs. (case eventOf [(''count'', Number 3)] ''count'' of None \<Rightarrow> [] | Some v \<Rightarrow> [v])
                       = v # vs \<and> (\<forall>s. v \<noteq> String s))"
    by (simp add: eventOf_def)
  have t1: "equalityTask fieldPath lengthSum64 0 (engine [OpAdd (mkPart Equals ''name'' '''' 6 0)])
          (eventOf [(''count'', Number 3)]) ''count'' {#} =
        (None, equalitySearch lengthSum64 0 (engine [OpAdd (mkPart Equals ''name'' '''' 6 0)])
                 ''count'' '''' {#})"
    by (rule missing_field_is_empty_string
          [where parse = fieldPath and path = "''count''"
             and x = "\<lambda>input. case input ''count'' of None \<Rightarrow> [] | Some v \<Rightarrow> [v]"
             and input = "eventOf [(''count'', Number 3)]", OF h1 h2, THEN conjunct1])
  have t2:
    "equalityTask fieldPath lengthSum64 0 (engine [OpAdd (mkPart Equals ''name'' '''' 6 0)])
       (eventOf [(''count'', Number 3)]) ''name'' {#} =
     (None, False, {#(6, \<lparr>Serial = 6, Flag = 0\<rparr>)#})"
    by (simp add: eval_simps match_simps)
  have n1: "fieldPath ''name'' =
              Inr (\<lambda>input. case input ''name'' of None \<Rightarrow> [] | Some v \<Rightarrow> [v])"
    by (simp add: fieldPath_def plainName_def)
  have n2: "(case eventOf [(''count'', Number 3)] ''name'' of None \<Rightarrow> [] | Some v \<Rightarrow> [v]) = [] \<or>
            (\<exists>v vs. (case eventOf [(''count'', Number 3)] ''name'' of None \<Rightarrow> [] | Some v \<Rightarrow> [v])
                       = v # vs \<and> (\<forall>s. v \<noteq> String s))"
    by (simp add: eventOf_def)
  have e: "engine [OpAdd (mkPart NotEquals ''name'' '''' 7 0), OpAdd (mkPart Equals ''name'' '''' 6 0)] =
           snd (Add lengthSum64 ToStored (engine [OpAdd (mkPart NotEquals ''name'' '''' 7 0)])
                  (mkPart Equals ''name'' '''' 6 0))"
    by (simp add: engine_def run_def step_def)
  have hyps: "''name'' \<in> set (varsOrder (scheduleOf [''name''] [''name''] [''0''])) \<and>
              Operator (Predicate (mkPart Equals ''name'' '''' 6 0)) = Equals \<and>
              hash lengthSum64 (LiteralAsString (Predicate (mkPart Equals ''name'' '''' 6 0))) =
                hash lengthSum64 '''' \<and>
              (Ident (ToStored (mkPart Equals ''name'' '''' 6 0)) = None \<or>
               Ident (ToStored (mkPart Equals ''name'' '''' 6 0)) = Some ''name'')"
    by (simp add: scheduleOf_def mkPart_def ToStored_def LiteralAsString_def)
  have pair: "pairOf (ToStored (mkPart Equals ''name'' '''' 6 0)) = (6, \<lparr>Serial = 6, Flag = 0\<rparr>)"
    by (simp add: pairOf_def ToStored_def mkPart_def)
  have "count {#} (pairOf (ToStored (mkPart Equals ''name'' '''' 6 0))) + 1
          \<le> count (snd (Match fieldPath lengthSum64 0
                           (snd (Add lengthSum64 ToStored
                                   (engine [OpAdd (mkPart NotEquals ''name'' '''' 7 0)])
                                   (mkPart Equals ''name'' '''' 6 0)))
                           (scheduleOf [''name''] [''name''] [''0''])
                           (eventOf [(''count'', Number 3)]) {#}))
               (pairOf (ToStored (mkPart Equals ''name'' '''' 6 0)))"
    by (rule missing_field_is_empty_string
          [where parse = fieldPath and path = "''name''"
             and x = "\<lambda>input. case input ''name'' of None \<Rightarrow> [] | Some v \<Rightarrow> [v]"
             and input = "eventOf [(''count'', Number 3)]"
             and xx = lengthSum64 and toStored = ToStored
             and p = "mkPart Equals ''name'' '''' 6 0"
             and sched = "scheduleOf [''name''] [''name''] [''0'']"
             and n = "engine [OpAdd (mkPart NotEquals ''name'' '''' 7 0)]"
             and none = 0 and result = "{#}", OF n1 n2,
           THEN conjunct2, THEN conjunct2, THEN conjunct2, THEN conjunct2, THEN conjunct1,
           THEN mp, OF hyps])
  then have m1: "1 \<le> count (snd (Match fieldPath lengthSum64 0
                    (engine [OpAdd (mkPart NotEquals ''name'' '''' 7 0),
                             OpAdd (mkPart Equals ''name'' '''' 6 0)])
                    (scheduleOf [''name''] [''name''] [''0''])
                    (eventOf [(''count'', Number 3)]) {#}))
           (6, \<lparr>Serial = 6, Flag = 0\<rparr>)"
    unfolding e pair by simp
  have m2: "Match fieldPath lengthSum64 0
     (engine [OpAdd (mkPart NotEquals ''name'' '''' 7 0), OpAdd (mkPart Equals ''name'' '''' 6 0)])
     (scheduleOf [''name''] [''name''] [''0'']) (eventOf [(''count'', Number 3)]) {#} =
   (None, {#(6, \<lparr>Serial = 6, Flag = 0\<rparr>)#})"
    by (simp add: eval_simps match_simps FormatUint36.simps)
  show ?thesis
    by (intro conjI) (rule h1, rule t1, rule t2, rule m1, rule m2)
qed



section \<open>Add and Remove\<close>

text \<open>
  C5. \<open>Remove\<close> is asymmetric between the operators. For an inequality part whose path
  is in the inequality index while the bucket of its literal's hash is not, \<open>Remove\<close>
  returns nil and leaves the engine as it is. For an equality part whose bucket is not in
  the equality index, \<open>Remove\<close> returns \<open>ErrExpressionPartNotFound\<close>.
\<close>

theorem Remove_asymmetry:
  "(Operator (Predicate p) = NotEquals \<and> inequality n (Predicate.Ident (Predicate p)) = Some m \<and>
    m (hash xx (LiteralAsString (Predicate p))) = None
      \<longrightarrow> Remove xx equalsStored n p = (None, n)) \<and>
   (Operator (Predicate p) = Equals \<and> equality n (hash xx (LiteralAsString (Predicate p))) = None
      \<longrightarrow> Remove xx equalsStored n p = (Some ErrExpressionPartNotFound, n))"
  by (simp add: Remove_def)

text \<open>
  With \<open>status != "inactive"\<close> registered, removing \<open>status != "active"\<close> succeeds and
  removing \<open>status == "active"\<close> fails.
\<close>

theorem Remove_asymmetry_witness:
  "inequality (engine [OpAdd (mkPart NotEquals ''status'' ''inactive'' 2 0)]) ''status''
     = Some [''8'' \<mapsto> [ToStored (mkPart NotEquals ''status'' ''inactive'' 2 0)]] \<and>
   Remove lengthSum64 EqualsStored (engine [OpAdd (mkPart NotEquals ''status'' ''inactive'' 2 0)])
     (mkPart NotEquals ''status'' ''active'' 3 0) =
     (None, engine [OpAdd (mkPart NotEquals ''status'' ''inactive'' 2 0)]) \<and>
   Remove lengthSum64 EqualsStored (engine [OpAdd (mkPart NotEquals ''status'' ''inactive'' 2 0)])
     (mkPart Equals ''status'' ''active'' 3 0) =
     (Some ErrExpressionPartNotFound, engine [OpAdd (mkPart NotEquals ''status'' ''inactive'' 2 0)])"
  using
    Remove_asymmetry [where p = "mkPart NotEquals ''status'' ''active'' 3 0"
      and n = "engine [OpAdd (mkPart NotEquals ''status'' ''inactive'' 2 0)]"
      and m = "[''8'' \<mapsto> [ToStored (mkPart NotEquals ''status'' ''inactive'' 2 0)]]"
      and xx = lengthSum64 and equalsStored = EqualsStored]
    Remove_asymmetry [where p = "mkPart Equals ''status'' ''active'' 3 0"
      and n = "engine [OpAdd (mkPart NotEquals ''status'' ''inactive'' 2 0)]"
      and xx = lengthSum64 and equalsStored = EqualsStored]
  by (simp add: eval_simps)

text \<open>
  C9. \<open>Add\<close> and \<open>Remove\<close> are atomic on error. \<open>Add\<close> returns an error only for an
  operator other than equality and inequality; for such an operator \<open>Add\<close> and \<open>Remove\<close>
  return the unsupported-operator error; and whenever \<open>Add\<close> or \<open>Remove\<close> returns an
  error, the engine (\<open>vars\<close>, the equality index and the inequality index) is as it was
  before the call.
\<close>

theorem Add_Remove_error_atomic:
  "(fst (Add xx toStored n p) \<noteq> None \<longrightarrow>
      Add xx toStored n p = (Some ErrUnsupportedOperator, n) \<and>
      Operator (Predicate p) \<noteq> Equals \<and> Operator (Predicate p) \<noteq> NotEquals) \<and>
   (Operator (Predicate p) \<noteq> Equals \<and> Operator (Predicate p) \<noteq> NotEquals \<longrightarrow>
      Add xx toStored n p = (Some ErrUnsupportedOperator, n) \<and>
      Remove xx equalsStored n p = (Some ErrUnsupportedOperator, n)) \<and>
   (fst (Remove xx equalsStored n p) \<noteq> None \<longrightarrow> snd (Remove xx equalsStored n p) = n)"
  by (cases "Operator (Predicate p)")
     (auto simp: Add_def Remove_def Let_def split: option.splits)

text \<open>
  With \<open>a == "x"\<close> registered: adding a part with the operator \<open><\<close> fails, and so does
  removing the equality part \<open>a == "yy"\<close>, which is not in the engine; both leave the
  engine as it was.
\<close>

theorem Add_Remove_error_atomic_witness:
  "fst (Add lengthSum64 ToStored (engine [OpAdd (mkPart Equals ''a'' ''x'' 5 0)])
          (mkPart (OtherOperator ''_<_'') ''a'' ''x'' 6 0)) = Some ErrUnsupportedOperator \<and>
   snd (Add lengthSum64 ToStored (engine [OpAdd (mkPart Equals ''a'' ''x'' 5 0)])
          (mkPart (OtherOperator ''_<_'') ''a'' ''x'' 6 0)) =
     engine [OpAdd (mkPart Equals ''a'' ''x'' 5 0)] \<and>
   fst (Remove lengthSum64 EqualsStored (engine [OpAdd (mkPart Equals ''a'' ''x'' 5 0)])
          (mkPart Equals ''a'' ''yy'' 7 0)) = Some ErrExpressionPartNotFound \<and>
   snd (Remove lengthSum64 EqualsStored (engine [OpAdd (mkPart Equals ''a'' ''x'' 5 0)])
          (mkPart Equals ''a'' ''yy'' 7 0)) =
     engine [OpAdd (mkPart Equals ''a'' ''x'' 5 0)]"
proof -
  have a: "fst (Add lengthSum64 ToStored (engine [OpAdd (mkPart Equals ''a'' ''x'' 5 0)])
                  (mkPart (OtherOperator ''_<_'') ''a'' ''x'' 6 0)) = Some ErrUnsupportedOperator"
    by (simp add: Add_def mkPart_def)
  have r: "fst (Remove lengthSum64 EqualsStored (engine [OpAdd (mkPart Equals ''a'' ''x'' 5 0)])
                  (mkPart Equals ''a'' ''yy'' 7 0)) = Some ErrExpressionPartNotFound"
    by (simp add: eval_simps)
  have a': "fst (Add lengthSum64 ToStored (engine [OpAdd (mkPart Equals ''a'' ''x'' 5 0)])
                   (mkPart (OtherOperator ''_<_'') ''a'' ''x'' 6 0)) \<noteq> None"
    by (simp only: a) simp
  have r': "fst (Remove lengthSum64 EqualsStored (engine [OpAdd (mkPart Equals ''a'' ''x'' 5 0)])
                   (mkPart Equals ''a'' ''yy'' 7 0)) \<noteq> None"
    by (simp only: r) simp
  have "Add lengthSum64 ToStored (engine [OpAdd (mkPart Equals ''a'' ''x'' 5 0)])
          (mkPart (OtherOperator ''_<_'') ''a'' ''x'' 6 0) =
        (Some ErrUnsupportedOperator, engine [OpAdd (mkPart Equals ''a'' ''x'' 5 0)])"
    by (rule Add_Remove_error_atomic [THEN conjunct1, THEN mp, OF a', THEN conjunct1])
  then have s1: "snd (Add lengthSum64 ToStored (engine [OpAdd (mkPart Equals ''a'' ''x'' 5 0)])
                        (mkPart (OtherOperator ''_<_'') ''a'' ''x'' 6 0)) =
                 engine [OpAdd (mkPart Equals ''a'' ''x'' 5 0)]"
    by (simp only: snd_conv)
  have s2: "snd (Remove lengthSum64 EqualsStored (engine [OpAdd (mkPart Equals ''a'' ''x'' 5 0)])
                   (mkPart Equals ''a'' ''yy'' 7 0)) =
            engine [OpAdd (mkPart Equals ''a'' ''x'' 5 0)]"
    by (rule Add_Remove_error_atomic [THEN conjunct2, THEN conjunct2, THEN mp, OF r'])
  show ?thesis
    by (intro conjI) (rule a, rule s1, rule r, rule s2)
qed


text \<open>
  C6. The claim: \<open>Remove\<close> of a part that was never added returns
  \<open>ErrExpressionPartNotFound\<close>, and so does the second \<open>Remove\<close> after an \<open>Add\<close> and
  one successful \<open>Remove\<close>. With only \<open>a != "x"\<close> registered, removing the part
  \<open>a != "yy"\<close>, which was never added, returns nil: the path \<open>a\<close> is in the inequality
  index and the bucket of the hash of \<open>"yy"\<close> is not.
\<close>

theorem Remove_never_added_counterexample:
  "\<not> EqualsStored (mkPart NotEquals ''a'' ''yy'' 3 0) (ToStored (mkPart NotEquals ''a'' ''x'' 2 0)) \<and>
   Remove lengthSum64 EqualsStored (engine [OpAdd (mkPart NotEquals ''a'' ''x'' 2 0)])
     (mkPart NotEquals ''a'' ''yy'' 3 0) =
     (None, engine [OpAdd (mkPart NotEquals ''a'' ''x'' 2 0)])"
  by (simp add: eval_simps)

text \<open>
  C6, amended. Let the engine be reached from the new engine by a sequence of calls that
  never added a part whose stored form equals \<open>p\<close>. Then \<open>Remove p\<close> returns
  \<open>ErrExpressionPartNotFound\<close> for an equality part; for an inequality part it returns
  \<open>ErrExpressionPartNotFound\<close>, except that it returns nil and changes nothing when the
  path of \<open>p\<close> is in the inequality index and the bucket of its literal's hash is not;
  and after \<open>Add p\<close> and one successful \<open>Remove p\<close>, a second \<open>Remove p\<close> returns
  \<open>ErrExpressionPartNotFound\<close>.
\<close>

theorem Remove_of_part_never_added:
  assumes n: "n = run xx toStored equalsStored (newStringEqualityMatcher c) ops"
    and never: "\<forall>q. OpAdd q \<in> set ops \<longrightarrow> \<not> equalsStored p (toStored q)"
  shows "(Operator (Predicate p) = Equals \<longrightarrow>
            Remove xx equalsStored n p = (Some ErrExpressionPartNotFound, n)) \<and>
         (Operator (Predicate p) = NotEquals \<longrightarrow>
            Remove xx equalsStored n p =
              (if inequality n (Predicate.Ident (Predicate p)) \<noteq> None \<and>
                  inequalityAt n (Predicate.Ident (Predicate p))
                    (hash xx (LiteralAsString (Predicate p))) = None
               then (None, n) else (Some ErrExpressionPartNotFound, n))) \<and>
         (fst (Remove xx equalsStored (snd (Add xx toStored n p)) p) = None \<longrightarrow>
            fst (Remove xx equalsStored
                   (snd (Remove xx equalsStored (snd (Add xx toStored n p)) p)) p) =
              Some ErrExpressionPartNotFound)"
proof -
  have absent: "\<forall>s\<in>equalityParts n \<union> inequalityParts n. \<not> equalsStored p s"
    unfolding n using never by (rule never_added_absent)
  have a: "\<forall>s\<in>set (bucket (equality n) k). \<not> equalsStored p s" for k
    using absent bucket_subset_equalityParts [of n k] by blast
  have b: "\<forall>s\<in>set (bucket (inequalityAt n path) k). \<not> equalsStored p s" for path k
    using absent bucket_subset_inequalityParts [of n path k] by blast
  have t: "\<forall>s\<in>set (targetBucket xx n p). \<not> equalsStored p s"
    using absent targetBucket_subset [of xx n p] by blast
  show ?thesis
    using Remove_Equals_absent [of p n xx equalsStored] Remove_NotEquals_absent [of p n xx equalsStored]
      Add_Remove_Remove [of xx n p equalsStored toStored] t a b
    by simp
qed

text \<open>
  With only \<open>a == "x"\<close> of expression 5 registered, the part \<open>a == "yy"\<close> of
  expression 7: removing it fails; after adding it, the first removal succeeds and the
  second fails.
\<close>

theorem Remove_of_part_never_added_witness:
  "\<not> EqualsStored (mkPart Equals ''a'' ''yy'' 7 0) (ToStored (mkPart Equals ''a'' ''x'' 5 0)) \<and>
   Remove lengthSum64 EqualsStored (engine [OpAdd (mkPart Equals ''a'' ''x'' 5 0)])
     (mkPart Equals ''a'' ''yy'' 7 0) =
     (Some ErrExpressionPartNotFound, engine [OpAdd (mkPart Equals ''a'' ''x'' 5 0)]) \<and>
   fst (Remove lengthSum64 EqualsStored
          (snd (Add lengthSum64 ToStored (engine [OpAdd (mkPart Equals ''a'' ''x'' 5 0)])
                  (mkPart Equals ''a'' ''yy'' 7 0)))
          (mkPart Equals ''a'' ''yy'' 7 0)) = None \<and>
   fst (Remove lengthSum64 EqualsStored
          (snd (Remove lengthSum64 EqualsStored
                  (snd (Add lengthSum64 ToStored (engine [OpAdd (mkPart Equals ''a'' ''x'' 5 0)])
                          (mkPart Equals ''a'' ''yy'' 7 0)))
                  (mkPart Equals ''a'' ''yy'' 7 0)))
          (mkPart Equals ''a'' ''yy'' 7 0)) = Some ErrExpressionPartNotFound"
proof -
  have h0: "\<not> EqualsStored (mkPart Equals ''a'' ''yy'' 7 0) (ToStored (mkPart Equals ''a'' ''x'' 5 0))"
    by (simp add: EqualsStored_def ToStored_def mkPart_def)
  have h1: "engine [OpAdd (mkPart Equals ''a'' ''x'' 5 0)] =
            run lengthSum64 ToStored EqualsStored (newStringEqualityMatcher 0)
              [OpAdd (mkPart Equals ''a'' ''x'' 5 0)]"
    by (simp only: engine_def)
  have h2: "\<forall>q. OpAdd q \<in> set [OpAdd (mkPart Equals ''a'' ''x'' 5 0)] \<longrightarrow>
              \<not> EqualsStored (mkPart Equals ''a'' ''yy'' 7 0) (ToStored q)"
    using h0 by simp
  have h3: "Operator (Predicate (mkPart Equals ''a'' ''yy'' 7 0)) = Equals"
    by (simp add: mkPart_def)
  have ok: "fst (Remove lengthSum64 EqualsStored
              (snd (Add lengthSum64 ToStored (engine [OpAdd (mkPart Equals ''a'' ''x'' 5 0)])
                      (mkPart Equals ''a'' ''yy'' 7 0)))
              (mkPart Equals ''a'' ''yy'' 7 0)) = None"
    by (simp add: eval_simps)
  note inst = Remove_of_part_never_added [OF h1 h2]
  show ?thesis
    by (intro conjI)
       (rule h0, rule inst [THEN conjunct1, THEN mp, OF h3], rule ok,
        rule inst [THEN conjunct2, THEN conjunct2, THEN mp, OF ok])
qed

text \<open>
  C7. The claim: in every state reached by calls of \<open>Add\<close> and \<open>Remove\<close>, \<open>vars\<close> is the
  set of identifiers of the stored parts in the buckets of the equality index. \<open>Remove\<close>
  takes the part out of its bucket and leaves \<open>vars\<close> as it is: after adding and
  removing \<open>a == "x"\<close>, \<open>vars\<close> holds \<open>a\<close> and the buckets hold no part.
\<close>

theorem vars_stored_identifiers_counterexample:
  "vars (engine [OpAdd (mkPart Equals ''a'' ''x'' 5 0), OpRemove (mkPart Equals ''a'' ''x'' 5 0)]) \<noteq>
   storedIdents (engine [OpAdd (mkPart Equals ''a'' ''x'' 5 0), OpRemove (mkPart Equals ''a'' ''x'' 5 0)])"
  by (simp add: eval_simps storedIdents_def equalityParts_def)

text \<open>
  C7, amended. When the stored form of a part keeps the identifier of its predicate, in
  every state reached from the new engine by calls of \<open>Add\<close> and \<open>Remove\<close>: the
  identifiers of the stored parts in the buckets of the equality index are all in
  \<open>vars\<close>; \<open>vars\<close> is the set of identifiers of the equality parts added so far, removed
  or not; and the two sets are equal when no \<open>Remove\<close> was called.
\<close>

theorem vars_and_stored_identifiers:
  assumes ts: "\<forall>p. Ident (toStored p) = Some (Predicate.Ident (Predicate p))"
  shows "storedIdents (run xx toStored equalsStored (newStringEqualityMatcher c) ops)
           \<subseteq> vars (run xx toStored equalsStored (newStringEqualityMatcher c) ops) \<and>
         vars (run xx toStored equalsStored (newStringEqualityMatcher c) ops) =
           {Predicate.Ident (Predicate p) | p.
              OpAdd p \<in> set ops \<and> Operator (Predicate p) = Equals} \<and>
         ((\<forall>op\<in>set ops. \<exists>p. op = OpAdd p) \<longrightarrow>
            storedIdents (run xx toStored equalsStored (newStringEqualityMatcher c) ops) =
            vars (run xx toStored equalsStored (newStringEqualityMatcher c) ops))"
proof -
  let ?n = "run xx toStored equalsStored (newStringEqualityMatcher c) ops"
  let ?A = "{p. OpAdd p \<in> set ops \<and> Operator (Predicate p) = Equals}"
  have v: "vars ?n = {Predicate.Ident (Predicate p) | p. p \<in> ?A}"
    by (simp add: vars_run)
  have sub: "storedIdents ?n \<subseteq> vars ?n"
  proof
    fix i
    assume "i \<in> storedIdents ?n"
    then obtain s where s: "s \<in> equalityParts ?n" "Ident s = Some i"
      by (auto simp: storedIdents_def)
    then obtain p where "p \<in> ?A" "s = toStored p"
      using equalityParts_run [of xx toStored equalsStored c ops] by blast
    then show "i \<in> vars ?n"
      using s ts unfolding v by auto
  qed
  have eq: "storedIdents ?n = vars ?n" if "\<forall>op\<in>set ops. \<exists>p. op = OpAdd p"
  proof
    show "storedIdents ?n \<subseteq> vars ?n" by (rule sub)
    show "vars ?n \<subseteq> storedIdents ?n"
    proof
      fix i
      assume "i \<in> vars ?n"
      then obtain p where p: "p \<in> ?A" "i = Predicate.Ident (Predicate p)"
        unfolding v by auto
      then have "toStored p \<in> equalityParts ?n"
        using equalityParts_run_adds [OF that, of xx toStored equalsStored c] by blast
      moreover have "Ident (toStored p) = Some i"
        using ts p by simp
      ultimately show "i \<in> storedIdents ?n"
        by (auto simp: storedIdents_def)
    qed
  qed
  show ?thesis
    using sub v eq by auto
qed

text \<open>
  After adding \<open>a == "x"\<close> and \<open>b != "y"\<close> and removing \<open>a == "x"\<close>: the identifiers in
  the buckets are in \<open>vars\<close>, which is \<open>{a}\<close>.
\<close>

theorem vars_and_stored_identifiers_witness:
  "(\<forall>p. Ident (ToStored p) = Some (Predicate.Ident (Predicate p))) \<and>
   storedIdents (engine [OpAdd (mkPart Equals ''a'' ''x'' 5 0), OpAdd (mkPart NotEquals ''b'' ''y'' 6 0),
                         OpRemove (mkPart Equals ''a'' ''x'' 5 0)])
     \<subseteq> vars (engine [OpAdd (mkPart Equals ''a'' ''x'' 5 0), OpAdd (mkPart NotEquals ''b'' ''y'' 6 0),
                      OpRemove (mkPart Equals ''a'' ''x'' 5 0)]) \<and>
   vars (engine [OpAdd (mkPart Equals ''a'' ''x'' 5 0), OpAdd (mkPart NotEquals ''b'' ''y'' 6 0),
                 OpRemove (mkPart Equals ''a'' ''x'' 5 0)]) = {''a''}"
proof -
  have h: "\<forall>p. Ident (ToStored p) = Some (Predicate.Ident (Predicate p))"
    by (simp add: ToStored_def)
  have s: "storedIdents (engine [OpAdd (mkPart Equals ''a'' ''x'' 5 0),
                                 OpAdd (mkPart NotEquals ''b'' ''y'' 6 0),
                                 OpRemove (mkPart Equals ''a'' ''x'' 5 0)])
             \<subseteq> vars (engine [OpAdd (mkPart Equals ''a'' ''x'' 5 0),
                              OpAdd (mkPart NotEquals ''b'' ''y'' 6 0),
                              OpRemove (mkPart Equals ''a'' ''x'' 5 0)])"
    unfolding engine_def by (rule vars_and_stored_identifiers [OF h, THEN conjunct1])
  have v: "vars (engine [OpAdd (mkPart Equals ''a'' ''x'' 5 0), OpAdd (mkPart NotEquals ''b'' ''y'' 6 0),
                         OpRemove (mkPart Equals ''a'' ''x'' 5 0)]) = {''a''}"
    by (simp add: eval_simps)
  show ?thesis
    by (intro conjI) (rule h, rule s, rule v)
qed

text \<open>
  C8. The claim: in every state reached by calls of \<open>Add\<close> and \<open>Remove\<close>, no bucket holds
  a stored part twice. \<open>Add\<close> appends the stored form of the part without looking for it
  in the bucket: after adding \<open>a == "x"\<close> twice, the bucket holds its stored form twice.
\<close>

theorem bucket_duplicates_counterexample:
  "\<not> noDuplicates (engine [OpAdd (mkPart Equals ''a'' ''x'' 5 0), OpAdd (mkPart Equals ''a'' ''x'' 5 0)])"
proof
  assume "noDuplicates (engine [OpAdd (mkPart Equals ''a'' ''x'' 5 0), OpAdd (mkPart Equals ''a'' ''x'' 5 0)])"
  then have "distinct (bucket (equality (engine [OpAdd (mkPart Equals ''a'' ''x'' 5 0),
      OpAdd (mkPart Equals ''a'' ''x'' 5 0)])) ''1'')"
    unfolding noDuplicates_def by blast
  then show False
    by (simp add: eval_simps)
qed

text \<open>
  C8, amended. The buckets of the new engine hold no stored part twice; \<open>Remove\<close> keeps
  that; \<open>Add\<close> keeps it exactly when the stored form of the part it adds is not already in
  the bucket it appends to. So no bucket holds a stored part twice in any state reached
  from the new engine by calls in which no \<open>Add\<close> finds the stored form of its part in
  its bucket.
\<close>

theorem noDuplicates_preserved:
  "noDuplicates (newStringEqualityMatcher c) \<and>
   (noDuplicates n \<longrightarrow> noDuplicates (snd (Remove xx equalsStored n p))) \<and>
   (noDuplicates n \<longrightarrow>
      (noDuplicates (snd (Add xx toStored n p)) \<longleftrightarrow> toStored p \<notin> set (targetBucket xx n p))) \<and>
   (freshAdds xx toStored equalsStored (newStringEqualityMatcher c) ops \<longrightarrow>
      noDuplicates (run xx toStored equalsStored (newStringEqualityMatcher c) ops))"
  using noDuplicates_new [of c] noDuplicates_Remove [of n xx equalsStored p]
    noDuplicates_Add [of n xx toStored p]
    noDuplicates_run [of "newStringEqualityMatcher c" xx toStored equalsStored ops]
  by blast

text \<open>
  Adding \<open>a == "x"\<close> and \<open>b != "y"\<close>, removing \<open>a == "x"\<close> and adding it again: every
  \<open>Add\<close> finds its bucket without the part, and no bucket holds a part twice.
\<close>

theorem noDuplicates_preserved_witness:
  "freshAdds lengthSum64 ToStored EqualsStored (newStringEqualityMatcher 0)
     [OpAdd (mkPart Equals ''a'' ''x'' 5 0), OpAdd (mkPart NotEquals ''b'' ''y'' 6 0),
      OpRemove (mkPart Equals ''a'' ''x'' 5 0), OpAdd (mkPart Equals ''a'' ''x'' 5 0)] \<and>
   noDuplicates (engine
     [OpAdd (mkPart Equals ''a'' ''x'' 5 0), OpAdd (mkPart NotEquals ''b'' ''y'' 6 0),
      OpRemove (mkPart Equals ''a'' ''x'' 5 0), OpAdd (mkPart Equals ''a'' ''x'' 5 0)])"
proof -
  have f: "freshAdds lengthSum64 ToStored EqualsStored (newStringEqualityMatcher 0)
     [OpAdd (mkPart Equals ''a'' ''x'' 5 0), OpAdd (mkPart NotEquals ''b'' ''y'' 6 0),
      OpRemove (mkPart Equals ''a'' ''x'' 5 0), OpAdd (mkPart Equals ''a'' ''x'' 5 0)]"
    by (simp add: targetBucket_def inequalityAt_def eval_simps)
  have d: "noDuplicates (engine
     [OpAdd (mkPart Equals ''a'' ''x'' 5 0), OpAdd (mkPart NotEquals ''b'' ''y'' 6 0),
      OpRemove (mkPart Equals ''a'' ''x'' 5 0), OpAdd (mkPart Equals ''a'' ''x'' 5 0)])"
    unfolding engine_def
    by (rule noDuplicates_preserved
          [THEN conjunct2, THEN conjunct2, THEN conjunct2, THEN mp, OF f])
  show ?thesis
    by (intro conjI) (rule f, rule d)
qed


end
